theory Spec2Isabelle
  imports Main
begin

section \<open>Values\<close>

text \<open>
  The library works on JavaScript values: primitives, arrays (``lists''), plain objects
  (``dicts'') and every other object or function, which it treats atomically.

  The library never mutates an object it did not create itself in the same call, so an
  object is modelled as an immutable node that carries its reference: \<open>List r xs\<close> is the
  array allocated as object number \<open>r\<close>, with the elements \<open>xs\<close>; \<open>Dict r es\<close> is the plain
  object number \<open>r\<close> with the own enumerable properties \<open>es\<close>, in creation order. Two
  object values are the same reference when they are the same node. A value is a finite
  tree, so a cyclic object graph, on which the recursive functions of the source do not
  return, is not a value of the model.

  Allocation is explicit state passing: every function that can create an object takes the
  number of objects allocated so far and returns it updated; the object created by
  \<^verbatim>\<open>{}\<close>, \<^verbatim>\<open>Array(n)\<close> or \<^verbatim>\<open>slice\<close> gets that number as its reference.

  A number is an integral double, a non-integral finite double (kept as its decimal text,
  which is all the library ever reads of it), \<^verbatim>\<open>NaN\<close> or an infinity; \<^verbatim>\<open>-0\<close> is
  identified with \<^verbatim>\<open>0\<close>, which no operation of the library tells apart.

  The values a program can hold are the well-formed ones: a reference names one object, a
  dict holds a key once, and every reference is below the count of allocated objects. The
  entries of a dict are kept in the order they were created, which is the order
  \<^verbatim>\<open>Object.keys\<close> lists string keys in, except that an engine lists keys that are
  array indices first; the statements below read dicts by key, or hold keys that are not
  array indices.

  Left out of the model: properties inherited from a prototype, the text of error
  messages (an error is the test or the bound that failed, with the offending value), the
  calls of \<^verbatim>\<open>patch\<close> and \<^verbatim>\<open>merge\<close> with more than two arguments, and the functions
  that take a callback from the caller (\<^verbatim>\<open>equal\<close>, \<^verbatim>\<open>putBy\<close>, \<^verbatim>\<open>putInBy\<close>).
\<close>

type_synonym ref = nat

datatype number = Integral int | Fractional string | NaN | Infinity | NegInfinity

datatype key = KStr string | KSym nat

datatype val =
    Undefined
  | Null
  | Bool bool
  | Num number
  | Str string
  | Sym nat
  | List ref "val list"
  | Dict ref "(key \<times> val) list"
  | Opaque ref
  | Func ref

text \<open>The tests that \<^verbatim>\<open>validate\<close> can name in its message, and the two errors thrown.\<close>

datatype test = IsArray | IsDict | IsPrimitive | IsPath | IsInteger | IsNatural

datatype error =
    Expected val test
  | OutOfBounds val nat

subsection \<open>Reading lists and dicts\<close>

fun elems :: "val \<Rightarrow> val list" where
  "elems (List r xs) = xs"
| "elems v = []"

fun entries :: "val \<Rightarrow> (key \<times> val) list" where
  "entries (Dict r es) = es"
| "entries v = []"

text \<open>\<^verbatim>\<open>list[i]\<close>: reading past the end gives \<^verbatim>\<open>undefined\<close>.\<close>

definition atIndex :: "val list \<Rightarrow> nat \<Rightarrow> val" where
  "atIndex xs i = (if i < length xs then xs ! i else Undefined)"

text \<open>\<^verbatim>\<open>dict[key]\<close> for an own property; a missing key gives \<^verbatim>\<open>undefined\<close>.
  Properties inherited from a prototype are not modelled.\<close>

definition atKey :: "(key \<times> val) list \<Rightarrow> key \<Rightarrow> val" where
  "atKey es k = (case map_of es k of None \<Rightarrow> Undefined | Some v \<Rightarrow> v)"

text \<open>\<^verbatim>\<open>has.call(dict, key)\<close>.\<close>

definition has :: "(key \<times> val) list \<Rightarrow> key \<Rightarrow> bool" where
  "has es k = (k \<in> set (map fst es))"

text \<open>\<^verbatim>\<open>Object.keys\<close>: the own enumerable string keys; symbol keys are left out.\<close>

fun getKeys :: "(key \<times> val) list \<Rightarrow> key list" where
  "getKeys [] = []"
| "getKeys ((KStr s, v) # es) = KStr s # getKeys es"
| "getKeys ((KSym n, v) # es) = getKeys es"

text \<open>
  \<^verbatim>\<open>out[key] = value\<close> on a dict under construction, for a key other than
  \<^verbatim>\<open>__proto__\<close>. Under that one key the assignment creates no entry: it runs the setter
  that \<^verbatim>\<open>Object.prototype\<close> provides, which replaces the prototype of \<open>out\<close> when the
  value is an object and does nothing otherwise. The model does not follow that, so the
  statements that say which entries a rebuilt dict has are for dicts that do not hold
  that key (\<open>protoFree\<close> below).
\<close>

fun setKey :: "(key \<times> val) list \<Rightarrow> key \<Rightarrow> val \<Rightarrow> (key \<times> val) list" where
  "setKey [] k v = [(k, v)]"
| "setKey ((k', v') # es) k v = (if k' = k then (k, v) # es else (k', v') # setKey es k v)"

text \<open>\<^verbatim>\<open>out[index] = value\<close> on a list under construction: writing past the end
  extends the list.\<close>

definition setIndex :: "val list \<Rightarrow> nat \<Rightarrow> val \<Rightarrow> val list" where
  "setIndex xs i v =
     (if i < length xs then xs[i := v]
      else xs @ replicate (i - length xs) Undefined @ [v])"

subsection \<open>Predicates\<close>

definition nullish :: "val \<Rightarrow> bool" where
  "nullish value = (value = Undefined \<or> value = Null)"

definition isNaN :: "val \<Rightarrow> bool" where
  "isNaN value = (value = Num NaN)"

text \<open>\<^verbatim>\<open>one === other\<close>: the same primitive or the same reference; \<^verbatim>\<open>NaN\<close> differs
  from itself.\<close>

definition strictEq :: "val \<Rightarrow> val \<Rightarrow> bool" where
  "strictEq one other = (one = other \<and> one \<noteq> Num NaN)"

definition is_val :: "val \<Rightarrow> val \<Rightarrow> bool" where
  "is_val one other = (strictEq one other \<or> (isNaN one \<and> isNaN other))"

fun isObject :: "val \<Rightarrow> bool" where
  "isObject (List r xs) = True"
| "isObject (Dict r es) = True"
| "isObject (Opaque r) = True"
| "isObject v = False"

fun isFunction :: "val \<Rightarrow> bool" where
  "isFunction (Func r) = True"
| "isFunction v = False"

definition isPrimitive :: "val \<Rightarrow> bool" where
  "isPrimitive value = (\<not> isObject value \<and> \<not> isFunction value)"

fun isDict :: "val \<Rightarrow> bool" where
  "isDict (Dict r es) = True"
| "isDict v = False"

fun isArray :: "val \<Rightarrow> bool" where
  "isArray (List r xs) = True"
| "isArray v = False"

fun isInteger :: "val \<Rightarrow> bool" where
  "isInteger (Num (Integral i)) = True"
| "isInteger v = False"

fun isNatural :: "val \<Rightarrow> bool" where
  "isNatural (Num (Integral i)) = (0 \<le> i)"
| "isNatural v = False"

text \<open>\<^verbatim>\<open>everyBy(list, fun, ...)\<close>, the callback taking the element and its index.\<close>

fun everyFrom :: "nat \<Rightarrow> 'a list \<Rightarrow> ('a \<Rightarrow> nat \<Rightarrow> bool) \<Rightarrow> bool" where
  "everyFrom i [] f = True"
| "everyFrom i (x # xs) f = (if \<not> f x i then False else everyFrom (Suc i) xs f)"

definition everyBy :: "'a list \<Rightarrow> ('a \<Rightarrow> nat \<Rightarrow> bool) \<Rightarrow> bool" where
  "everyBy xs f = everyFrom 0 xs f"

definition isPath :: "val \<Rightarrow> bool" where
  "isPath value = (isArray value \<and> everyBy (elems value) (\<lambda>x i. isPrimitive x))"

fun holds :: "test \<Rightarrow> val \<Rightarrow> bool" where
  "holds IsArray v = isArray v"
| "holds IsDict v = isDict v"
| "holds IsPrimitive v = isPrimitive v"
| "holds IsPath v = isPath v"
| "holds IsInteger v = isInteger v"
| "holds IsNatural v = isNatural v"

definition validate :: "val \<Rightarrow> test \<Rightarrow> error + unit" where
  "validate value t = (if \<not> holds t value then Inl (Expected value t) else Inr ())"

text \<open>The natural number that a value passing \<open>isNatural\<close> is.\<close>

fun indexOf :: "val \<Rightarrow> nat" where
  "indexOf (Num (Integral i)) = nat i"
| "indexOf v = 0"

definition validateBounds :: "val \<Rightarrow> val \<Rightarrow> error + unit" where
  "validateBounds list index =
     (case validate index IsNatural of
        Inl e \<Rightarrow> Inl e
      | Inr u \<Rightarrow>
          if \<not> (indexOf index \<le> length (elems list))
          then Inl (OutOfBounds index (length (elems list)))
          else Inr ())"

subsection \<open>Equality\<close>

definition everyListPairBy :: "val \<Rightarrow> val \<Rightarrow> (val \<Rightarrow> val \<Rightarrow> bool) \<Rightarrow> bool" where
  "everyListPairBy one other f =
     (length (elems one) = length (elems other) \<and>
      everyBy (elems one) (\<lambda>value index. f value (atIndex (elems other) index)))"

definition everyDictPairBy :: "val \<Rightarrow> val \<Rightarrow> (val \<Rightarrow> val \<Rightarrow> bool) \<Rightarrow> bool" where
  "everyDictPairBy one other f =
     (let keys = getKeys (entries one) in
      length keys = length (getKeys (entries other)) \<and>
      everyBy keys (\<lambda>k i. has (entries other) k) \<and>
      everyBy keys (\<lambda>k i. f (atKey (entries one) k) (atKey (entries other) k)))"

definition equalBy :: "val \<Rightarrow> val \<Rightarrow> (val \<Rightarrow> val \<Rightarrow> bool) \<Rightarrow> bool" where
  "equalBy one other f =
     (is_val one other \<or>
      (if isArray one then isArray other \<and> everyListPairBy one other f
       else if isDict one then isDict other \<and> everyDictPairBy one other f
       else False))"

subsection \<open>Property keys\<close>

text \<open>The decimal text of a natural number.\<close>

fun digit :: "nat \<Rightarrow> char" where
  "digit n = char_of (48 + n)"

function digits :: "nat \<Rightarrow> string" where
  "digits n = (if n < 10 then [digit n] else digits (n div 10) @ [digit (n mod 10)])"
  by pat_completeness auto
termination
  by (relation "measure (\<lambda>n. n)") auto

declare digits.simps [simp del]

text \<open>
  \<^verbatim>\<open>String(number)\<close>. An integral number is written in decimal, which is its text up
  to \<open>2\<^sup>5\<^sup>3\<close> in magnitude; beyond that the text has at most 17 significant digits,
  and from \<open>10\<^sup>2\<^sup>1\<close> on it is in exponent form, which the model does not follow. The
  statements below convert only indices of lists.
\<close>

fun numberText :: "number \<Rightarrow> string" where
  "numberText (Integral i) = (if i < 0 then CHR ''-'' # digits (nat (- i)) else digits (nat i))"
| "numberText (Fractional s) = s"
| "numberText NaN = ''NaN''"
| "numberText Infinity = ''Infinity''"
| "numberText NegInfinity = ''-Infinity''"

text \<open>
  The property key a value used in \<^verbatim>\<open>value[key]\<close> stands for. A symbol is its own
  key, any other primitive is converted to its text. An object or function is converted
  by its own text conversion, which may return any text or throw, and which is not
  modelled: there is no key for it here, and \<open>get\<close> reads \<^verbatim>\<open>undefined\<close> with it. The
  statements about reads are therefore for primitive keys; the one read with an object key
  is the concrete one that refutes claim C7, the key \<^verbatim>\<open>{}\<close>, whose text names no
  property of the dict it is read from.
\<close>

fun propertyKey :: "val \<Rightarrow> key option" where
  "propertyKey (Sym n) = Some (KSym n)"
| "propertyKey Undefined = Some (KStr ''undefined'')"
| "propertyKey Null = Some (KStr ''null'')"
| "propertyKey (Bool b) = Some (KStr (if b then ''true'' else ''false''))"
| "propertyKey (Num n) = Some (KStr (numberText n))"
| "propertyKey (Str s) = Some (KStr s)"
| "propertyKey v = None"

text \<open>\<^verbatim>\<open>toKey\<close> is only ever applied to a key that passed \<open>isPrimitive\<close>; for an object,
  whose text is not modelled, the text of a plain object stands in.\<close>

definition toKey :: "val \<Rightarrow> key" where
  "toKey value = (case propertyKey value of Some k \<Rightarrow> k | None \<Rightarrow> KStr ''[object Object]'')"

section \<open>Get\<close>

text \<open>The index below \<open>n\<close> whose decimal text is \<open>s\<close>, if there is one.\<close>

fun indexNamed :: "string \<Rightarrow> nat \<Rightarrow> nat option" where
  "indexNamed s 0 = None"
| "indexNamed s (Suc n) = (if digits n = s then Some n else indexNamed s n)"

text \<open>
  \<^verbatim>\<open>value[key]\<close> on a value that is not nullish, for own properties: the entries of a
  dict, the elements and the length of a list, the characters and the length of a string.
  A name found only on a prototype reads as \<^verbatim>\<open>undefined\<close> here, as do the properties
  of opaque objects and functions.
\<close>

fun ownProperty :: "val \<Rightarrow> key \<Rightarrow> val" where
  "ownProperty (Dict r es) k = atKey es k"
| "ownProperty (List r xs) (KStr s) =
     (if s = ''length'' then Num (Integral (int (length xs)))
      else case indexNamed s (length xs) of None \<Rightarrow> Undefined | Some i \<Rightarrow> xs ! i)"
| "ownProperty (Str t) (KStr s) =
     (if s = ''length'' then Num (Integral (int (length t)))
      else case indexNamed s (length t) of None \<Rightarrow> Undefined | Some i \<Rightarrow> Str [t ! i])"
| "ownProperty v k = Undefined"

definition get :: "val \<Rightarrow> val \<Rightarrow> val" where
  "get value key =
     (if nullish value then Undefined
      else case propertyKey key of None \<Rightarrow> Undefined | Some k \<Rightarrow> ownProperty value k)"

text \<open>The loop of \<^verbatim>\<open>getIn\<close> and \<^verbatim>\<open>scan\<close>.\<close>

fun getLoop :: "val \<Rightarrow> val list \<Rightarrow> val" where
  "getLoop value [] = value"
| "getLoop value (k # ks) = getLoop (get value k) ks"

definition getIn :: "val \<Rightarrow> val \<Rightarrow> error + val" where
  "getIn value path =
     (case validate path IsArray of
        Inl e \<Rightarrow> Inl e
      | Inr u \<Rightarrow> Inr (getLoop value (elems path)))"

definition scan :: "val \<Rightarrow> val list \<Rightarrow> val" where
  "scan value keys = getLoop value keys"

section \<open>Update (internal)\<close>

text \<open>The number of objects allocated so far; the next object gets it as its reference.\<close>

type_synonym alloc = nat

definition alwaysArray :: "alloc \<Rightarrow> val \<Rightarrow> error + (val \<times> alloc)" where
  "alwaysArray c value =
     (if nullish value then Inr (List c [], Suc c)
      else case validate value IsArray of
             Inl e \<Rightarrow> Inl e
           | Inr u \<Rightarrow> Inr (value, c))"

definition toDict :: "alloc \<Rightarrow> val \<Rightarrow> val \<times> alloc" where
  "toDict c value = (if isDict value then (value, c) else (Dict c [], Suc c))"

definition alwaysDict :: "alloc \<Rightarrow> val \<Rightarrow> error + (val \<times> alloc)" where
  "alwaysDict c value =
     (if nullish value then Inr (Dict c [], Suc c)
      else case validate value IsDict of
             Inl e \<Rightarrow> Inl e
           | Inr u \<Rightarrow> Inr (value, c))"

text \<open>
  The loop of \<^verbatim>\<open>replaceListBy\<close>: \<^verbatim>\<open>out[i] = fun(prev[i], next[i])\<close> for the elements
  of \<open>next\<close> from index \<open>i\<close> on. The callback may allocate, so the count of allocated objects
  is threaded through the calls in the order the source makes them.
\<close>

fun listLoop ::
  "(alloc \<Rightarrow> val \<Rightarrow> val \<Rightarrow> val \<times> alloc) \<Rightarrow> val list \<Rightarrow> nat \<Rightarrow> val list \<Rightarrow>
   val list \<times> alloc \<Rightarrow> val list \<times> alloc" where
  "listLoop f prev i [] (out, c) = (out, c)"
| "listLoop f prev i (y # ys) (out, c) =
     (case f c (atIndex prev i) y of
        (v, c') \<Rightarrow> listLoop f prev (Suc i) ys (setIndex out i v, c'))"

definition replaceListBy ::
  "alloc \<Rightarrow> val \<Rightarrow> val \<Rightarrow> (alloc \<Rightarrow> val \<Rightarrow> val \<Rightarrow> val \<times> alloc) \<Rightarrow> val \<times> alloc" where
  "replaceListBy c prev next f =
     (case listLoop f (elems prev) 0 (elems next)
             (replicate (length (elems next)) Undefined, Suc c) of
        (out, c') \<Rightarrow> (if equalBy prev (List c out) is_val then prev else List c out, c'))"

text \<open>
  The second loop of \<^verbatim>\<open>patchDictBy\<close>, which is the loop of \<^verbatim>\<open>replaceDictBy\<close>: for
  each key of \<open>next\<close>, \<^verbatim>\<open>value = fun(prev[key], next[key])\<close>, written to \<open>out\<close> unless
  nullish.
\<close>

fun dictLoop ::
  "(alloc \<Rightarrow> val \<Rightarrow> val \<Rightarrow> val \<times> alloc) \<Rightarrow> (key \<times> val) list \<Rightarrow> (key \<times> val) list \<Rightarrow>
   key list \<Rightarrow> (key \<times> val) list \<times> alloc \<Rightarrow> (key \<times> val) list \<times> alloc" where
  "dictLoop f prev next [] (out, c) = (out, c)"
| "dictLoop f prev next (k # ks) (out, c) =
     (case f c (atKey prev k) (atKey next k) of
        (value, c') \<Rightarrow>
          dictLoop f prev next ks (if \<not> nullish value then setKey out k value else out, c'))"

definition replaceDictBy ::
  "alloc \<Rightarrow> val \<Rightarrow> val \<Rightarrow> (alloc \<Rightarrow> val \<Rightarrow> val \<Rightarrow> val \<times> alloc) \<Rightarrow> val \<times> alloc" where
  "replaceDictBy c prev next f =
     (case dictLoop f (entries prev) (entries next) (getKeys (entries next)) ([], Suc c) of
        (out, c') \<Rightarrow> (if equalBy prev (Dict c out) is_val then prev else Dict c out, c'))"

text \<open>The first loop of \<^verbatim>\<open>patchDictBy\<close>: the entries of \<open>prev\<close> that are not nullish
  and whose key \<open>next\<close> does not have.\<close>

definition keepLoop :: "(key \<times> val) list \<Rightarrow> (key \<times> val) list \<Rightarrow> (key \<times> val) list" where
  "keepLoop prev next =
     foldl (\<lambda>out k. if \<not> nullish (atKey prev k) \<and> \<not> has next k
                     then setKey out k (atKey prev k) else out)
           [] (getKeys prev)"

definition patchDictBy ::
  "alloc \<Rightarrow> val \<Rightarrow> val \<Rightarrow> (alloc \<Rightarrow> val \<Rightarrow> val \<Rightarrow> val \<times> alloc) \<Rightarrow> val \<times> alloc" where
  "patchDictBy c prev next f =
     (case dictLoop f (entries prev) (entries next) (getKeys (entries next))
             (keepLoop (entries prev) (entries next), Suc c) of
        (out, c') \<Rightarrow> (if equalBy prev (Dict c out) is_val then prev else Dict c out, c'))"

lemma listLoop_cong [fundef_cong]:
  assumes "prev = prev'" "i = i'" "ys = ys'" "acc = acc'"
    and "\<And>c x y. y \<in> set ys' \<Longrightarrow> f c x y = g c x y"
  shows "listLoop f prev i ys acc = listLoop g prev' i' ys' acc'"
proof -
  have "(\<And>c x y. y \<in> set ys \<Longrightarrow> f c x y = g c x y) \<Longrightarrow>
        listLoop f prev i ys acc = listLoop g prev i ys acc"
  proof (induction ys arbitrary: i acc)
    case Nil
    show ?case by (cases acc) simp
  next
    case (Cons y ys)
    obtain out c where acc: "acc = (out, c)" by (cases acc)
    have "f c (atIndex prev i) y = g c (atIndex prev i) y"
      using Cons.prems by simp
    moreover have "\<And>a. listLoop f prev (Suc i) ys a = listLoop g prev (Suc i) ys a"
      using Cons.IH Cons.prems by simp
    ultimately show ?case by (simp add: acc)
  qed
  with assms show ?thesis by simp
qed

lemma dictLoop_cong [fundef_cong]:
  assumes "prev = prev'" "next = next'" "ks = ks'" "acc = acc'"
    and "\<And>c x k. k \<in> set ks' \<Longrightarrow> f c x (atKey next' k) = g c x (atKey next' k)"
  shows "dictLoop f prev next ks acc = dictLoop g prev' next' ks' acc'"
proof -
  have "(\<And>c x k. k \<in> set ks \<Longrightarrow> f c x (atKey next k) = g c x (atKey next k)) \<Longrightarrow>
        dictLoop f prev next ks acc = dictLoop g prev next ks acc"
  proof (induction ks arbitrary: acc)
    case Nil
    show ?case by (cases acc) simp
  next
    case (Cons k ks)
    obtain out c where acc: "acc = (out, c)" by (cases acc)
    have "f c (atKey prev k) (atKey next k) = g c (atKey prev k) (atKey next k)"
      using Cons.prems by simp
    moreover have "\<And>a. dictLoop f prev next ks a = dictLoop g prev next ks a"
      using Cons.IH Cons.prems by simp
    ultimately show ?case by (simp add: acc)
  qed
  with assms show ?thesis by simp
qed

lemma replaceListBy_cong [fundef_cong]:
  assumes "c = c'" "prev = prev'" "next = next'"
    and "\<And>c x y. y \<in> set (elems next') \<Longrightarrow> f c x y = g c x y"
  shows "replaceListBy c prev next f = replaceListBy c' prev' next' g"
proof -
  have "listLoop f (elems prev') 0 (elems next') a = listLoop g (elems prev') 0 (elems next') a"
    for a
    by (rule listLoop_cong) (simp_all add: assms(4))
  then show ?thesis
    unfolding replaceListBy_def assms(1-3) by simp
qed

lemma replaceDictBy_cong [fundef_cong]:
  assumes "c = c'" "prev = prev'" "next = next'"
    and "\<And>c x k. k \<in> set (getKeys (entries next')) \<Longrightarrow>
           f c x (atKey (entries next') k) = g c x (atKey (entries next') k)"
  shows "replaceDictBy c prev next f = replaceDictBy c' prev' next' g"
proof -
  have "dictLoop f (entries prev') (entries next') (getKeys (entries next')) a =
        dictLoop g (entries prev') (entries next') (getKeys (entries next')) a" for a
    by (rule dictLoop_cong) (simp_all add: assms(4))
  then show ?thesis
    unfolding replaceDictBy_def assms(1-3) by simp
qed

lemma patchDictBy_cong [fundef_cong]:
  assumes "c = c'" "prev = prev'" "next = next'"
    and "\<And>c x k. k \<in> set (getKeys (entries next')) \<Longrightarrow>
           f c x (atKey (entries next') k) = g c x (atKey (entries next') k)"
  shows "patchDictBy c prev next f = patchDictBy c' prev' next' g"
proof -
  have "dictLoop f (entries prev') (entries next') (getKeys (entries next')) a =
        dictLoop g (entries prev') (entries next') (getKeys (entries next')) a" for a
    by (rule dictLoop_cong) (simp_all add: assms(4))
  then show ?thesis
    unfolding patchDictBy_def assms(1-3) by simp
qed

lemma size_elems: "y \<in> set (elems v) \<Longrightarrow> size y < size v"
  by (cases v) (auto simp: less_Suc_eq_le dest: size_list_estimation')

lemma getKeys_has: "k \<in> set (getKeys es) \<Longrightarrow> has es k"
  by (induction es rule: getKeys.induct) (auto simp: has_def)

lemma size_atKey: "has es k \<Longrightarrow> size (atKey es k) < Suc (size_list (size_prod (\<lambda>x. 0) size) es)"
proof (induction es)
  case Nil
  then show ?case by (simp add: has_def)
next
  case (Cons e es)
  obtain k' v' where e: "e = (k', v')" by (cases e)
  show ?case
  proof (cases "k' = k")
    case True
    then show ?thesis by (simp add: e atKey_def)
  next
    case False
    with Cons.prems have "has es k" by (auto simp: has_def e)
    from Cons.IH [OF this] False show ?thesis by (simp add: e atKey_def)
  qed
qed

lemma size_entries: "k \<in> set (getKeys (entries v)) \<Longrightarrow> size (atKey (entries v) k) < size v"
  using size_atKey [OF getKeys_has, of k "entries v"] by (cases v) auto

function putAny :: "alloc \<Rightarrow> val \<Rightarrow> val \<Rightarrow> val \<times> alloc" where
  "putAny c prev next =
     (if is_val prev next then (prev, c)
      else if isArray prev
      then (if isArray next then replaceListBy c prev next putAny else (next, c))
      else if isDict prev
      then (if isDict next then replaceDictBy c prev next putAny else (next, c))
      else (next, c))"
  by pat_completeness auto
termination
  by (relation "measure (\<lambda>(c, prev, next). size next)")
     (auto simp: size_elems size_entries)

declare putAny.simps [simp del]

lemma toDict_keys:
  "k \<in> set (getKeys (entries (fst (toDict c v)))) \<Longrightarrow> k \<in> set (getKeys (entries v))"
  by (simp add: toDict_def split: if_splits)

function mergeTwo :: "alloc \<Rightarrow> val \<Rightarrow> val \<Rightarrow> val \<times> alloc"
  and mergeOrPut :: "alloc \<Rightarrow> val \<Rightarrow> val \<Rightarrow> val \<times> alloc" where
  "mergeTwo c prev next =
     (if is_val prev next then (prev, c)
      else case toDict c prev of
             (p, c1) \<Rightarrow> patchDictBy (snd (toDict c1 next)) p (fst (toDict c1 next)) mergeOrPut)"
| "mergeOrPut c prev next =
     (if isDict next then mergeTwo c prev next else putAny c prev next)"
  by pat_completeness auto
termination
proof (relation "measure (\<lambda>x. case x of Inl (c, prev, next) \<Rightarrow> 2 * size next
                                       | Inr (c, prev, next) \<Rightarrow> 2 * size next + 1)",
       goal_cases)
  case 1
  show ?case by simp
next
  case (2 c prev nxt p c1 c' x k)
  from 2(3) have "k \<in> set (getKeys (entries nxt))" by (rule toDict_keys)
  then have "size (atKey (entries nxt) k) < size nxt" by (rule size_entries)
  moreover have "atKey (entries (fst (toDict c1 nxt))) k = atKey (entries nxt) k"
    using 2(3) by (simp add: toDict_def split: if_splits)
  ultimately show ?case by simp
next
  case 3
  then show ?case by simp
qed

declare mergeTwo.simps [simp del]
declare mergeOrPut.simps [simp del]

definition patchTwoDicts :: "alloc \<Rightarrow> val \<Rightarrow> val \<Rightarrow> error + (val \<times> alloc)" where
  "patchTwoDicts c prev next =
     (case alwaysDict c prev of
        Inl e \<Rightarrow> Inl e
      | Inr (p, c1) \<Rightarrow>
          (case alwaysDict c1 next of
             Inl e \<Rightarrow> Inl e
           | Inr (n, c2) \<Rightarrow>
               if is_val p n then Inr (p, c2) else Inr (patchDictBy c2 p n putAny)))"

definition mergeTwoDicts :: "alloc \<Rightarrow> val \<Rightarrow> val \<Rightarrow> error + (val \<times> alloc)" where
  "mergeTwoDicts c prev next =
     (case alwaysDict c prev of
        Inl e \<Rightarrow> Inl e
      | Inr (p, c1) \<Rightarrow>
          (case alwaysDict c1 next of
             Inl e \<Rightarrow> Inl e
           | Inr (n, c2) \<Rightarrow> Inr (mergeTwo c2 p n)))"

text \<open>The loop of \<^verbatim>\<open>assocAtKey\<close>: the entries of \<open>dict\<close> other than \<open>key\<close> that are
  not nullish.\<close>

definition othersLoop :: "(key \<times> val) list \<Rightarrow> key \<Rightarrow> (key \<times> val) list" where
  "othersLoop dict key =
     foldl (\<lambda>out prevKey. if prevKey \<noteq> key \<and> \<not> nullish (atKey dict prevKey)
                           then setKey out prevKey (atKey dict prevKey) else out)
           [] (getKeys dict)"

definition assocAtKey :: "alloc \<Rightarrow> val \<Rightarrow> val \<Rightarrow> val \<Rightarrow> val \<times> alloc" where
  "assocAtKey c dict key0 value =
     (let key = toKey key0 in
      if nullish value \<and> \<not> has (entries dict) key then (dict, c)
      else if \<not> nullish value \<and> is_val (atKey (entries dict) key) value then (dict, c)
      else let out = othersLoop (entries dict) key in
           (Dict c (if \<not> nullish value then setKey out key value else out), Suc c))"

definition assocAtIndex :: "alloc \<Rightarrow> val \<Rightarrow> val \<Rightarrow> val \<Rightarrow> error + (val \<times> alloc)" where
  "assocAtIndex c list index value =
     (case validateBounds list index of
        Inl e \<Rightarrow> Inl e
      | Inr u \<Rightarrow>
          if indexOf index < length (elems list) \<and>
             is_val (atIndex (elems list) (indexOf index)) value
          then Inr (list, c)
          else Inr (List c (setIndex (elems list) (indexOf index) value), Suc c))"

definition assoc :: "alloc \<Rightarrow> val \<Rightarrow> val \<Rightarrow> val \<Rightarrow> error + (val \<times> alloc)" where
  "assoc c prev key next =
     (if isArray prev then assocAtIndex c prev key next
      else case alwaysDict c prev of
             Inl e \<Rightarrow> Inl e
           | Inr (dict, c1) \<Rightarrow> Inr (assocAtKey c1 dict key next))"

function assocInAt :: "alloc \<Rightarrow> val \<Rightarrow> val list \<Rightarrow> val \<Rightarrow> nat \<Rightarrow> error + (val \<times> alloc)" where
  "assocInAt c prev path next index =
     (let key = atIndex path index in
      if index < length path - 1
      then (case assocInAt c (get prev key) path next (index + 1) of
              Inl e \<Rightarrow> Inl e
            | Inr (inner, c1) \<Rightarrow> assoc c1 prev key inner)
      else assoc c prev key next)"
  by pat_completeness auto
termination
  by (relation "measure (\<lambda>(c, prev, path, next, index). length path - index)") auto

declare assocInAt.simps [simp del]

definition assocIn :: "alloc \<Rightarrow> val \<Rightarrow> val list \<Rightarrow> val \<Rightarrow> error + (val \<times> alloc)" where
  "assocIn c prev path next =
     (if length path = 0 then Inr (next, c) else assocInAt c prev path next 0)"

section \<open>Update\<close>

definition put :: "alloc \<Rightarrow> val \<Rightarrow> val \<Rightarrow> val \<Rightarrow> error + (val \<times> alloc)" where
  "put c prev key value =
     (case validate key IsPrimitive of
        Inl e \<Rightarrow> Inl e
      | Inr u \<Rightarrow>
          (case putAny c (get prev key) value of
             (v, c1) \<Rightarrow> assoc c1 prev key v))"

definition putIn :: "alloc \<Rightarrow> val \<Rightarrow> val \<Rightarrow> val \<Rightarrow> error + (val \<times> alloc)" where
  "putIn c prev path next =
     (case validate path IsPath of
        Inl e \<Rightarrow> Inl e
      | Inr u \<Rightarrow>
          (case getIn prev path of
             Inl e \<Rightarrow> Inl e
           | Inr cur \<Rightarrow>
               (case putAny c cur next of
                  (v, c1) \<Rightarrow> assocIn c1 prev (elems path) v)))"

text \<open>\<^verbatim>\<open>patch\<close> and \<^verbatim>\<open>merge\<close> called with two arguments.\<close>

definition patch :: "alloc \<Rightarrow> val \<Rightarrow> val \<Rightarrow> error + (val \<times> alloc)" where
  "patch c prev next = patchTwoDicts c prev next"

definition merge :: "alloc \<Rightarrow> val \<Rightarrow> val \<Rightarrow> error + (val \<times> alloc)" where
  "merge c prev next = mergeTwoDicts c prev next"

text \<open>\<^verbatim>\<open>list.splice(index, 0, value)\<close> and \<^verbatim>\<open>list.splice(index, 1)\<close> on the fresh copy,
  for an index that is a natural number.\<close>

definition spliceIn :: "val list \<Rightarrow> nat \<Rightarrow> val \<Rightarrow> val list" where
  "spliceIn xs i v = take i xs @ v # drop i xs"

definition spliceOut :: "val list \<Rightarrow> nat \<Rightarrow> val list" where
  "spliceOut xs i = take i xs @ drop (Suc i) xs"

definition insertAtIndex :: "alloc \<Rightarrow> val \<Rightarrow> val \<Rightarrow> val \<Rightarrow> error + (val \<times> alloc)" where
  "insertAtIndex c list0 index value =
     (case alwaysArray c list0 of
        Inl e \<Rightarrow> Inl e
      | Inr (list, c1) \<Rightarrow>
          (case validateBounds list index of
             Inl e \<Rightarrow> Inl e
           | Inr u \<Rightarrow> Inr (List c1 (spliceIn (elems list) (indexOf index) value), Suc c1)))"

definition removeAtIndex :: "alloc \<Rightarrow> val \<Rightarrow> val \<Rightarrow> error + (val \<times> alloc)" where
  "removeAtIndex c list0 index =
     (case validate index IsInteger of
        Inl e \<Rightarrow> Inl e
      | Inr u \<Rightarrow>
          (case alwaysArray c list0 of
             Inl e \<Rightarrow> Inl e
           | Inr (list, c1) \<Rightarrow>
               if isNatural index \<and> indexOf index < length (elems list)
               then Inr (List c1 (spliceOut (elems list) (indexOf index)), Suc c1)
               else Inr (list, c1)))"

section \<open>Vocabulary of the statements\<close>

text \<open>A dict holds \<open>v\<close> at the key \<open>k\<close>, where a nullish \<open>v\<close> stands for the key being
  absent.\<close>

definition entryIs :: "(key \<times> val) list \<Rightarrow> key \<Rightarrow> val \<Rightarrow> bool" where
  "entryIs es k v = (if nullish v then \<not> has es k else has es k \<and> atKey es k = v)"

text \<open>\<open>protoFree v\<close>: no dict in \<open>v\<close>, at any depth, holds the key \<^verbatim>\<open>__proto__\<close> as an
  own property.\<close>

fun protoFree :: "val \<Rightarrow> bool" where
  "protoFree (List r xs) = list_all protoFree xs"
| "protoFree (Dict r es) =
     (\<not> has es (KStr ''__proto__'') \<and> list_all (\<lambda>e. protoFree (snd e)) es)"
| "protoFree v = True"

text \<open>
  \<open>below c v\<close>: every object in \<open>v\<close> was allocated before the count of allocated objects was
  \<open>c\<close>. \<open>clean c v\<close>: every dict in \<open>v\<close> allocated at the count \<open>c\<close> or later has no nullish
  value under any of its keys.
\<close>

fun below :: "alloc \<Rightarrow> val \<Rightarrow> bool" where
  "below c (List r xs) = (r < c \<and> list_all (below c) xs)"
| "below c (Dict r es) = (r < c \<and> list_all (\<lambda>e. below c (snd e)) es)"
| "below c (Opaque r) = (r < c)"
| "below c (Func r) = (r < c)"
| "below c v = True"

fun clean :: "alloc \<Rightarrow> val \<Rightarrow> bool" where
  "clean c (List r xs) = list_all (clean c) xs"
| "clean c (Dict r es) =
     ((if c \<le> r then list_all (\<lambda>e. \<not> nullish (snd e)) es else True) \<and>
      list_all (\<lambda>e. clean c (snd e)) es)"
| "clean c v = True"

text \<open>
  The invariant of the update functions, for a call started at the count \<open>c0\<close>: a value
  holds only objects allocated so far, and its dicts allocated since \<open>c0\<close> have no nullish
  value. A callback preserves it at \<open>y\<close> when, from arguments \<open>x\<close> and \<open>y\<close> that satisfy it,
  it returns a value that satisfies it and a count that has not decreased.
\<close>

definition intact :: "alloc \<Rightarrow> alloc \<Rightarrow> val \<Rightarrow> bool" where
  "intact c0 c v = (below c v \<and> clean c0 v)"

definition preserves :: "alloc \<Rightarrow> (alloc \<Rightarrow> val \<Rightarrow> val \<Rightarrow> val \<times> alloc) \<Rightarrow> val \<Rightarrow> bool" where
  "preserves c0 f y =
     (\<forall>c x v c1. c0 \<le> c \<longrightarrow> intact c0 c x \<longrightarrow> intact c0 c y \<longrightarrow> f c x y = (v, c1) \<longrightarrow>
                 c \<le> c1 \<and> intact c0 c1 v)"

section \<open>Basic facts\<close>

lemma is_val_eq: "is_val a b = (a = b)"
  by (auto simp: is_val_def strictEq_def isNaN_def)

lemma putAny_same: "putAny c x x = (x, c)"
  by (subst putAny.simps) (simp add: is_val_eq)

lemma everyFrom_iff: "everyFrom i xs f = (\<forall>j < length xs. f (xs ! j) (i + j))"
proof (induction xs arbitrary: i)
  case Nil
  show ?case by simp
next
  case (Cons x xs)
  show ?case
    by (auto simp: Cons.IH less_Suc_eq_0_disj)
qed

lemma everyBy_iff: "everyBy xs f = (\<forall>j < length xs. f (xs ! j) j)"
  by (simp add: everyBy_def everyFrom_iff)

lemma everyBy_set: "everyBy xs (\<lambda>x i. P x) = (\<forall>x \<in> set xs. P x)"
  by (auto simp: everyBy_iff in_set_conv_nth dest: nth_mem)



lemma equalBy_Dict:
  "equalBy prev (Dict c out) is_val =
     (isDict prev \<and>
      (prev = Dict c out \<or>
       length (getKeys (entries prev)) = length (getKeys out) \<and>
       (\<forall>k \<in> set (getKeys (entries prev)). has out k \<and> atKey (entries prev) k = atKey out k)))"
  by (cases prev) (auto simp: equalBy_def is_val_eq everyDictPairBy_def everyBy_set Let_def)

lemma getLoop_foldl: "getLoop value ks = foldl get value ks"
  by (induction ks arbitrary: "value") simp_all

section \<open>Access\<close>

text \<open>
  Claim C7, as the code has it. \<^verbatim>\<open>getIn\<close> checks only that the path is a list. When
  the path is not a list it fails with the error of \<^verbatim>\<open>validate(path, isArray)\<close>. When
  the path is a list it never fails with an error of \<^verbatim>\<open>validate\<close>, whatever the
  elements are. And when the path is a list of primitives it returns the fold of the
  null-safe \<open>get\<close> over the path: a missing key never makes it fail.
\<close>

theorem getIn_spec:
  "(\<not> isArray path \<longrightarrow> getIn value path = Inl (Expected path IsArray))
   \<and> (isArray path \<longrightarrow> (\<forall>v t. getIn value path \<noteq> Inl (Expected v t)))
   \<and> (isPath path \<longrightarrow> getIn value path = Inr (foldl get value (elems path)))"
  by (simp add: getIn_def validate_def getLoop_foldl isPath_def)

theorem getIn_spec_witness:
  "\<not> isArray (Str ''a'')
   \<and> getIn (Dict 0 [(KStr ''a'', Num (Integral 1))]) (Str ''a'') = Inl (Expected (Str ''a'') IsArray)
   \<and> isArray (List 1 [Dict 2 []])
   \<and> getIn (Dict 0 [(KStr ''a'', Num (Integral 1))]) (List 1 [Dict 2 []])
       \<noteq> Inl (Expected (List 1 [Dict 2 []]) IsPath)
   \<and> isPath (List 1 [Str ''a'', Str ''b''])
   \<and> getIn (Dict 0 [(KStr ''a'', Num (Integral 1))]) (List 1 [Str ''a'']) = Inr (Num (Integral 1))
   \<and> getIn (Dict 0 [(KStr ''a'', Num (Integral 1))]) (List 1 [Str ''a'', Str ''b''])
       = Inr Undefined"
proof -
  have p: "isPath (List 1 [Str ''a''])" "isPath (List 1 [Str ''a'', Str ''b''])"
    by (simp_all add: isPath_def everyBy_def isPrimitive_def)
  have a: "isArray (List 1 [Dict 2 []])" "\<not> isArray (Str ''a'')" by simp_all
  have g: "get (Dict 0 [(KStr ''a'', Num (Integral 1))]) (Str ''a'') = Num (Integral 1)"
    "get (Num (Integral 1)) (Str ''b'') = Undefined"
    by (simp_all add: get_def nullish_def atKey_def)
  show ?thesis
    using getIn_spec [of "Str ''a''" "Dict 0 [(KStr ''a'', Num (Integral 1))]"]
          getIn_spec [of "List 1 [Dict 2 []]" "Dict 0 [(KStr ''a'', Num (Integral 1))]"]
          getIn_spec [of "List 1 [Str ''a'']" "Dict 0 [(KStr ''a'', Num (Integral 1))]"]
          getIn_spec [of "List 1 [Str ''a'', Str ''b'']" "Dict 0 [(KStr ''a'', Num (Integral 1))]"]
          p a g
    by simp
qed

text \<open>
  Claim C7 as stated fails: the path \<^verbatim>\<open>[{}]\<close>, a list holding an object, is not a list
  of primitives, yet \<^verbatim>\<open>getIn({a: 1}, [{}])\<close> returns \<^verbatim>\<open>undefined\<close> and signals no
  error.
\<close>

theorem getIn_counterexample:
  "\<not> isPath (List 1 [Dict 2 []]) \<and>
   getIn (Dict 0 [(KStr ''a'', Num (Integral 1))]) (List 1 [Dict 2 []]) = Inr Undefined"
  by (simp add: isPath_def everyBy_def isPrimitive_def getIn_def validate_def get_def nullish_def)

section \<open>List edits\<close>

text \<open>
  Claim C5. \<^verbatim>\<open>removeAtIndex(list, index)\<close> fails exactly when the index is not an
  integer or the list is neither nullish nor a list. For an integer index that is negative
  or at least the length it returns the list itself, the same reference, and for a nullish
  list the empty list it was coerced to. For a natural index below the length it returns a
  new list, the next object allocated, with that element spliced out.
\<close>

theorem removeAtIndex_spec:
  "((\<exists>e. removeAtIndex c list index = Inl e) \<longleftrightarrow>
      \<not> isInteger index \<or> \<not> (nullish list \<or> isArray list))
   \<and> (i < 0 \<or> int (length xs) \<le> i \<longrightarrow>
        removeAtIndex c (List r xs) (Num (Integral i)) = Inr (List r xs, c))
   \<and> (nullish list \<longrightarrow> removeAtIndex c list (Num (Integral i)) = Inr (List c [], Suc c))
   \<and> (0 \<le> i \<and> i < int (length xs) \<longrightarrow>
        removeAtIndex c (List r xs) (Num (Integral i)) =
          Inr (List c (take (nat i) xs @ drop (Suc (nat i)) xs), Suc c))"
  by (auto simp: removeAtIndex_def validate_def alwaysArray_def nullish_def spliceOut_def
           split: sum.splits)

theorem removeAtIndex_spec_witness:
  "int (length [Num (Integral 1), Num (Integral 2), Num (Integral 3)]) \<le> 5
   \<and> removeAtIndex 1 (List 0 [Num (Integral 1), Num (Integral 2), Num (Integral 3)])
         (Num (Integral 5))
       = Inr (List 0 [Num (Integral 1), Num (Integral 2), Num (Integral 3)], 1)
   \<and> nullish Null
   \<and> removeAtIndex 1 Null (Num (Integral 5)) = Inr (List 1 [], 2)
   \<and> removeAtIndex 1 (List 0 [Num (Integral 1), Num (Integral 2), Num (Integral 3)])
         (Num (Integral 1))
       = Inr (List 1 [Num (Integral 1), Num (Integral 3)], 2)
   \<and> (\<exists>e. removeAtIndex 1 Null (Str ''x'') = Inl e)"
  using removeAtIndex_spec [of 1 Null "Str ''x''" 5
          "[Num (Integral 1), Num (Integral 2), Num (Integral 3)]" 0]
        removeAtIndex_spec [of 1 Null "Str ''x''" 1
          "[Num (Integral 1), Num (Integral 2), Num (Integral 3)]" 0]
  by (simp add: nullish_def)

text \<open>
  Claim C6. \<^verbatim>\<open>insertAtIndex(list, index, value)\<close> fails for a list that is neither
  nullish nor a list; otherwise it fails exactly when the index is not a natural number
  in \<open>[0, length]\<close>: \<^verbatim>\<open>validateBounds\<close> rejects an index that is not a natural number
  with the error of its \<^verbatim>\<open>validate(index, isNatural)\<close> and a natural number above the
  length with its out-of-bounds error. For an index in range the result is a new list, the
  next object allocated and so never the input reference, with the value at the index and
  the later elements shifted right by one.
\<close>

theorem insertAtIndex_spec:
  "(\<not> (nullish list \<or> isArray list) \<longrightarrow>
      insertAtIndex c list index v = Inl (Expected list IsArray))
   \<and> (nullish list \<or> isArray list \<longrightarrow>
        ((\<exists>e. insertAtIndex c list index v = Inl e) \<longleftrightarrow>
           \<not> (isNatural index \<and> indexOf index \<le> length (elems list))))
   \<and> (\<not> isNatural index \<longrightarrow>
        insertAtIndex c (List r xs) index v = Inl (Expected index IsNatural))
   \<and> (int (length xs) < i \<longrightarrow>
        insertAtIndex c (List r xs) (Num (Integral i)) v =
          Inl (OutOfBounds (Num (Integral i)) (length xs)))
   \<and> (0 \<le> i \<and> i \<le> int (length xs) \<longrightarrow>
        insertAtIndex c (List r xs) (Num (Integral i)) v =
          Inr (List c (take (nat i) xs @ v # drop (nat i) xs), Suc c))
   \<and> (nullish list \<longrightarrow>
        insertAtIndex c list (Num (Integral 0)) v = Inr (List (Suc c) [v], Suc (Suc c)))"
  by (auto simp: insertAtIndex_def validate_def validateBounds_def alwaysArray_def nullish_def
                 spliceIn_def
           split: sum.splits)

theorem insertAtIndex_spec_witness:
  "\<not> (nullish (Str ''abc'') \<or> isArray (Str ''abc''))
   \<and> insertAtIndex 1 (Str ''abc'') (Num (Integral 1)) (Str ''x'')
       = Inl (Expected (Str ''abc'') IsArray)
   \<and> \<not> isNatural (Num (Integral (- 1)))
   \<and> insertAtIndex 1 (List 0 [Num (Integral 1), Num (Integral 2), Num (Integral 3)])
         (Num (Integral (- 1))) (Str ''x'')
       = Inl (Expected (Num (Integral (- 1))) IsNatural)
   \<and> insertAtIndex 1 (List 0 [Num (Integral 1), Num (Integral 2), Num (Integral 3)])
         (Num (Integral 5)) (Str ''x'')
       = Inl (OutOfBounds (Num (Integral 5)) 3)
   \<and> insertAtIndex 1 (List 0 [Num (Integral 1), Num (Integral 2), Num (Integral 3)])
         (Num (Integral 1)) (Str ''x'')
       = Inr (List 1 [Num (Integral 1), Str ''x'', Num (Integral 2), Num (Integral 3)], 2)
   \<and> insertAtIndex 1 Undefined (Num (Integral 0)) (Str ''x'') = Inr (List 2 [Str ''x''], 3)"
  using insertAtIndex_spec [of "Str ''abc''" 1 "Num (Integral 1)" "Str ''x''" 0
          "[Num (Integral 1), Num (Integral 2), Num (Integral 3)]" 5]
        insertAtIndex_spec [of Undefined 1 "Num (Integral (- 1))" "Str ''x''" 0
          "[Num (Integral 1), Num (Integral 2), Num (Integral 3)]" 1]
  by (simp add: nullish_def)

section \<open>The structural update\<close>



lemma putAny_other:
  "prev \<noteq> next \<Longrightarrow> \<not> (isArray prev \<and> isArray next) \<Longrightarrow> \<not> (isDict prev \<and> isDict next) \<Longrightarrow>
   putAny c prev next = (next, c)"
  by (subst putAny.simps) (auto simp add: is_val_eq)



section \<open>Put\<close>

text \<open>The decimal text of a natural number determines it, and is never \<^verbatim>\<open>length\<close>.\<close>

lemma digits_nonempty: "digits n \<noteq> []"
  by (subst digits.simps) simp

lemma digit_inj: "a < 10 \<Longrightarrow> b < 10 \<Longrightarrow> digit a = digit b \<Longrightarrow> a = b"
proof -
  assume a: "a < 10" and b: "b < 10" and e: "digit a = digit b"
  from e have "of_char (digit a) = (of_char (digit b) :: nat)" by simp
  with a b show "a = b" by (simp add: of_char_of)
qed

lemma digits_inj: "digits a = digits b \<Longrightarrow> a = b"
proof (induction a arbitrary: b rule: digits.induct)
  case (1 a)
  show ?case
  proof (cases "a < 10")
    case True
    show ?thesis
    proof (cases "b < 10")
      case b: True
      from "1.prems" True b have "digit a = digit b"
        by (simp add: digits.simps [of a] digits.simps [of b])
      with True b show ?thesis by (rule digit_inj)
    next
      case False
      with "1.prems" True have "[digit a] = digits (b div 10) @ [digit (b mod 10)]"
        by (simp add: digits.simps [of a] digits.simps [of b])
      then show ?thesis using digits_nonempty [of "b div 10"] by simp
    qed
  next
    case False
    show ?thesis
    proof (cases "b < 10")
      case True
      with "1.prems" False have "digits (a div 10) @ [digit (a mod 10)] = [digit b]"
        by (simp add: digits.simps [of a] digits.simps [of b])
      then show ?thesis using digits_nonempty [of "a div 10"] by simp
    next
      case b: False
      with "1.prems" False
      have "digits (a div 10) @ [digit (a mod 10)] = digits (b div 10) @ [digit (b mod 10)]"
        by (simp add: digits.simps [of a] digits.simps [of b])
      then have d: "digits (a div 10) = digits (b div 10)"
        and m: "digit (a mod 10) = digit (b mod 10)" by simp_all
      from "1.IH" [OF False d] have "a div 10 = b div 10" .
      moreover from m have "a mod 10 = b mod 10" by (intro digit_inj) simp_all
      ultimately show ?thesis by (metis div_mult_mod_eq)
    qed
  qed
qed

lemma digits_last: "last (digits n) = digit (n mod 10)"
  by (subst digits.simps) (simp add: digits_nonempty)

lemma digits_not_length: "digits n \<noteq> ''length''"
proof
  assume "digits n = ''length''"
  then have "last (digits n) = CHR ''h''" by simp
  then have "of_char (digit (n mod 10)) = (of_char (CHR ''h'') :: nat)"
    by (simp add: digits_last)
  then show False by (simp add: of_char_of)
qed

lemma indexNamed_digits: "i < n \<Longrightarrow> indexNamed (digits i) n = Some i"
  by (induction n) (auto simp: less_Suc_eq dest: digits_inj)

lemma get_List_index:
  "0 \<le> i \<Longrightarrow> i < int (length xs) \<Longrightarrow> get (List r xs) (Num (Integral i)) = xs ! nat i"
  by (simp add: get_def nullish_def digits_not_length indexNamed_digits)

lemma propertyKey_primitive: "isPrimitive k \<Longrightarrow> propertyKey k = Some (toKey k)"
  by (cases k) (simp_all add: isPrimitive_def toKey_def)

lemma get_Dict: "isPrimitive k \<Longrightarrow> get (Dict r es) k = atKey es (toKey k)"
  by (simp add: get_def nullish_def propertyKey_primitive)

lemma atKey_nullish_absent: "\<not> has es k \<Longrightarrow> atKey es k = Undefined"
  by (simp add: has_def atKey_def map_of_eq_None_iff [THEN iffD2])


lemma assocAtKey_same:
  assumes "nullish (atKey (entries dict) (toKey k)) \<Longrightarrow> \<not> has (entries dict) (toKey k)"
  shows "assocAtKey c dict k (atKey (entries dict) (toKey k)) = (dict, c)"
proof (cases "nullish (atKey (entries dict) (toKey k))")
  case True
  with assms show ?thesis by (simp add: assocAtKey_def Let_def)
next
  case False
  then show ?thesis by (simp add: assocAtKey_def Let_def is_val_eq)
qed

lemma assoc_Dict_same:
  assumes "nullish (atKey es (toKey k)) \<Longrightarrow> \<not> has es (toKey k)"
  shows "assoc c (Dict r es) k (atKey es (toKey k)) = Inr (Dict r es, c)"
proof -
  have "alwaysDict c (Dict r es) = Inr (Dict r es, c)"
    by (simp add: alwaysDict_def nullish_def validate_def)
  moreover have "assocAtKey c (Dict r es) k (atKey es (toKey k)) = (Dict r es, c)"
    using assocAtKey_same [of "Dict r es" k c] assms by simp
  ultimately show ?thesis by (simp add: assoc_def)
qed

lemma assoc_List_same:
  assumes "0 \<le> i" "i < int (length xs)"
  shows "assoc c (List r xs) (Num (Integral i)) (xs ! nat i) = Inr (List r xs, c)"
  using assms
  by (simp add: assoc_def assocAtIndex_def validateBounds_def validate_def atIndex_def is_val_eq)

lemma put_Dict_same:
  assumes "isPrimitive k" "nullish (atKey es (toKey k)) \<Longrightarrow> \<not> has es (toKey k)"
  shows "put c (Dict r es) k (get (Dict r es) k) = Inr (Dict r es, c)"
  using assms(1) assoc_Dict_same [OF assms(2)]
  by (simp add: put_def validate_def get_Dict putAny_same)

lemma put_List_same:
  assumes "0 \<le> i" "i < int (length xs)"
  shows "put c (List r xs) (Num (Integral i)) (get (List r xs) (Num (Integral i)))
          = Inr (List r xs, c)"
  using assms assoc_List_same [OF assms]
  by (simp add: put_def validate_def isPrimitive_def get_List_index putAny_same)

text \<open>
  Claim C1, as the code has it. For a dict \<open>v\<close> and a primitive key \<open>k\<close> at which \<open>v\<close> has
  no nullish entry (the key is absent, or its value is not nullish), and for a list \<open>v\<close>
  and an index \<open>k\<close> that is a natural number below the length, \<^verbatim>\<open>put(v, k, get(v, k))\<close>
  returns \<open>v\<close> itself and allocates nothing.
\<close>

theorem put_get_identity:
  "(isPrimitive k \<and> (has es (toKey k) \<longrightarrow> \<not> nullish (atKey es (toKey k))) \<longrightarrow>
      put c (Dict r es) k (get (Dict r es) k) = Inr (Dict r es, c))
   \<and> (0 \<le> i \<and> i < int (length xs) \<longrightarrow>
        put c (List r xs) (Num (Integral i)) (get (List r xs) (Num (Integral i)))
          = Inr (List r xs, c))"
proof (intro conjI impI)
  assume h: "isPrimitive k \<and> (has es (toKey k) \<longrightarrow> \<not> nullish (atKey es (toKey k)))"
  then have "nullish (atKey es (toKey k)) \<Longrightarrow> \<not> has es (toKey k)" by blast
  with h show "put c (Dict r es) k (get (Dict r es) k) = Inr (Dict r es, c)"
    by (intro put_Dict_same) simp_all
next
  assume "0 \<le> i \<and> i < int (length xs)"
  then show "put c (List r xs) (Num (Integral i)) (get (List r xs) (Num (Integral i)))
          = Inr (List r xs, c)"
    by (intro put_List_same) simp_all
qed

theorem put_get_identity_witness:
  "isPrimitive (Str ''a'')
   \<and> put 1 (Dict 0 [(KStr ''a'', Num (Integral 1))]) (Str ''a'')
         (get (Dict 0 [(KStr ''a'', Num (Integral 1))]) (Str ''a''))
       = Inr (Dict 0 [(KStr ''a'', Num (Integral 1))], 1)
   \<and> put 1 (List 0 [Num (Integral 7)]) (Num (Integral 0))
         (get (List 0 [Num (Integral 7)]) (Num (Integral 0)))
       = Inr (List 0 [Num (Integral 7)], 1)"
proof -
  have p: "isPrimitive (Str ''a'')" by (simp add: isPrimitive_def)
  have n: "\<not> nullish (atKey [(KStr ''a'', Num (Integral 1))] (toKey (Str ''a'')))"
    by (simp add: toKey_def atKey_def nullish_def)
  have l: "(0::int) \<le> 0 \<and> 0 < int (length [Num (Integral 7)])" by simp
  show ?thesis
    using put_get_identity [of "Str ''a''" "[(KStr ''a'', Num (Integral 1))]" 1 0 0
            "[Num (Integral 7)]"] p n l
    by blast
qed

lemma put_null_entry:
  "put 1 (Dict 0 [(KStr ''a'', Null)]) (Str ''a'')
       (get (Dict 0 [(KStr ''a'', Null)]) (Str ''a''))
     = Inr (Dict 1 [], 2)"
  by code_simp

lemma put_list_at_length:
  "put 1 (List 0 [Num (Integral 1)]) (Num (Integral 1))
       (get (List 0 [Num (Integral 1)]) (Num (Integral 1)))
     = Inr (List 1 [Num (Integral 1), Undefined], 2)"
  by code_simp

lemma put_list_length_key:
  "put 1 (List 0 [Num (Integral 1)]) (Str ''length'')
       (get (List 0 [Num (Integral 1)]) (Str ''length''))
     = Inl (Expected (Str ''length'') IsNatural)"
  by code_simp

text \<open>
  Claim C1 as stated fails. On the dict \<^verbatim>\<open>{a: null}\<close> with the key \<^verbatim>\<open>a\<close> the result is
  a new, empty dict. On the list \<^verbatim>\<open>[1]\<close> the index \<^verbatim>\<open>1\<close>, the length, gives the new
  list \<^verbatim>\<open>[1, undefined]\<close>, and the primitive key \<^verbatim>\<open>length\<close> makes
  \<^verbatim>\<open>validateBounds\<close> fail.
\<close>

theorem put_get_identity_counterexample:
  "isDict (Dict 0 [(KStr ''a'', Null)]) \<and> isPrimitive (Str ''a'')
   \<and> put 1 (Dict 0 [(KStr ''a'', Null)]) (Str ''a'')
         (get (Dict 0 [(KStr ''a'', Null)]) (Str ''a''))
       = Inr (Dict 1 [], 2)
   \<and> isArray (List 0 [Num (Integral 1)]) \<and> isPrimitive (Num (Integral 1))
   \<and> put 1 (List 0 [Num (Integral 1)]) (Num (Integral 1))
         (get (List 0 [Num (Integral 1)]) (Num (Integral 1)))
       = Inr (List 1 [Num (Integral 1), Undefined], 2)
   \<and> put 1 (List 0 [Num (Integral 1)]) (Str ''length'')
         (get (List 0 [Num (Integral 1)]) (Str ''length''))
       = Inl (Expected (Str ''length'') IsNatural)"
  using put_null_entry put_list_at_length put_list_length_key
  by (simp add: isPrimitive_def)

section \<open>Dicts as maps\<close>

lemma has_map_of: "has es k = (map_of es k \<noteq> None)"
  by (simp add: has_def map_of_eq_None_iff)

lemma atKey_map_of: "atKey es k = (case map_of es k of None \<Rightarrow> Undefined | Some v \<Rightarrow> v)"
  by (simp add: atKey_def)

lemma map_of_setKey: "map_of (setKey es k v) = (map_of es)(k \<mapsto> v)"
  by (induction es) auto

lemma keys_setKey: "set (map fst (setKey es k v)) = insert k (set (map fst es))"
  using arg_cong [OF map_of_setKey [of es k v], of dom]
  by (simp add: dom_map_of_conv_image_fst)

lemma distinct_setKey: "distinct (map fst es) \<Longrightarrow> distinct (map fst (setKey es k v))"
proof (induction es)
  case Nil
  show ?case by simp
next
  case (Cons e es)
  obtain k' v' where e: "e = (k', v')" by (cases e)
  from Cons.prems have d: "distinct (map fst es)" and n: "k' \<notin> set (map fst es)"
    by (simp_all add: e)
  show ?case
  proof (cases "k' = k")
    case True
    with Cons.prems show ?thesis by (simp add: e)
  next
    case False
    have "k' \<notin> set (map fst (setKey es k v))"
      using n False unfolding keys_setKey by simp
    with Cons.IH [OF d] False show ?thesis by (simp add: e)
  qed
qed

lemma set_getKeys: "set (getKeys es) = {k. has es k \<and> (\<exists>s. k = KStr s)}"
  by (induction es rule: getKeys.induct) (auto simp: has_def)

lemma distinct_getKeys: "distinct (map fst es) \<Longrightarrow> distinct (getKeys es)"
proof (induction es rule: getKeys.induct)
  case 1
  show ?case by simp
next
  case (2 s v es)
  then have "KStr s \<notin> set (getKeys es)"
    by (auto simp: set_getKeys has_def)
  with 2 show ?case by simp
next
  case (3 n v es)
  then show ?case by simp
qed

text \<open>A loop that writes \<open>g k\<close> at the keys \<open>k\<close> it selects.\<close>

lemma map_of_foldl_setKey:
  "map_of (foldl (\<lambda>out k. if P k then setKey out k (g k) else out) acc ks) =
     (\<lambda>k. if k \<in> set ks \<and> P k then Some (g k) else map_of acc k)"
proof (induction ks arbitrary: acc)
  case Nil
  show ?case by simp
next
  case (Cons k ks)
  show ?case
    by (rule ext) (simp add: Cons.IH map_of_setKey)
qed

lemma distinct_foldl_setKey:
  "distinct (map fst acc) \<Longrightarrow>
   distinct (map fst (foldl (\<lambda>out k. if P k then setKey out k (g k) else out) acc ks))"
proof (induction ks arbitrary: acc)
  case Nil
  then show ?case by simp
next
  case (Cons k ks)
  have "distinct (map fst (if P k then setKey acc k (g k) else acc))"
    using Cons.prems by (simp add: distinct_setKey)
  from Cons.IH [OF this] show ?case by simp
qed

lemma map_of_keepLoop:
  "map_of (keepLoop prev next) =
     (\<lambda>k. if k \<in> set (getKeys prev) \<and> \<not> nullish (atKey prev k) \<and> \<not> has next k
          then Some (atKey prev k) else None)"
  unfolding keepLoop_def map_of_foldl_setKey by (rule ext) simp

lemma distinct_keepLoop: "distinct (map fst (keepLoop prev next))"
  unfolding keepLoop_def by (rule distinct_foldl_setKey) simp

lemma map_of_othersLoop:
  "map_of (othersLoop dict key) =
     (\<lambda>k. if k \<in> set (getKeys dict) \<and> k \<noteq> key \<and> \<not> nullish (atKey dict k)
          then Some (atKey dict k) else None)"
  unfolding othersLoop_def map_of_foldl_setKey by (rule ext) simp

lemma distinct_othersLoop: "distinct (map fst (othersLoop dict key))"
  unfolding othersLoop_def by (rule distinct_foldl_setKey) simp

text \<open>The loop over the keys of \<open>next\<close>.\<close>

lemma dictLoop_map_of:
  assumes "distinct ks" "dictLoop f p n ks (out, c) = (out', c')"
  shows "(\<forall>k. k \<notin> set ks \<longrightarrow> map_of out' k = map_of out k) \<and>
         (\<forall>k \<in> set ks. \<exists>c1. map_of out' k =
            (if nullish (fst (f c1 (atKey p k) (atKey n k))) then map_of out k
             else Some (fst (f c1 (atKey p k) (atKey n k)))))"
  using assms
proof (induction ks arbitrary: out c)
  case Nil
  then show ?case by simp
next
  case (Cons k ks)
  obtain v c1 where f: "f c (atKey p k) (atKey n k) = (v, c1)"
    by (cases "f c (atKey p k) (atKey n k)")
  define out1 where "out1 = (if \<not> nullish v then setKey out k v else out)"
  from Cons.prems f have loop: "dictLoop f p n ks (out1, c1) = (out', c')"
    by (simp add: out1_def)
  from Cons.prems have d: "distinct ks" and nk: "k \<notin> set ks" by simp_all
  note IH = Cons.IH [OF d loop]
  have o1: "map_of out1 k' = (if k' = k \<and> \<not> nullish v then Some v else map_of out k')" for k'
    by (simp add: out1_def map_of_setKey)
  show ?case
  proof (intro conjI allI ballI impI)
    fix k' assume "k' \<notin> set (k # ks)"
    then show "map_of out' k' = map_of out k'"
      using IH o1 by simp
  next
    fix k' assume k': "k' \<in> set (k # ks)"
    show "\<exists>c1. map_of out' k' =
            (if nullish (fst (f c1 (atKey p k') (atKey n k'))) then map_of out k'
             else Some (fst (f c1 (atKey p k') (atKey n k'))))"
    proof (cases "k' = k")
      case True
      with nk IH have "map_of out' k' = map_of out1 k'" by simp
      with True o1 [of k] f show ?thesis
        by (intro exI [of _ c]) auto
    next
      case False
      with k' have "k' \<in> set ks" by simp
      with IH obtain c2 where "map_of out' k' =
            (if nullish (fst (f c2 (atKey p k') (atKey n k'))) then map_of out1 k'
             else Some (fst (f c2 (atKey p k') (atKey n k'))))" by blast
      with False o1 [of k'] show ?thesis by (intro exI [of _ c2]) simp
    qed
  qed
qed

lemma dictLoop_distinct:
  "distinct (map fst out) \<Longrightarrow> dictLoop f p n ks (out, c) = (out', c') \<Longrightarrow>
   distinct (map fst out')"
proof (induction ks arbitrary: out c)
  case Nil
  then show ?case by simp
next
  case (Cons k ks)
  obtain v c1 where f: "f c (atKey p k) (atKey n k) = (v, c1)"
    by (cases "f c (atKey p k) (atKey n k)")
  have "distinct (map fst (if \<not> nullish v then setKey out k v else out))"
    using Cons.prems(1) by (simp add: distinct_setKey)
  moreover from Cons.prems(2) f
  have "dictLoop f p n ks (if \<not> nullish v then setKey out k v else out, c1) = (out', c')"
    by simp
  ultimately show ?case by (rule Cons.IH)
qed

lemma entryIs_map_of: "entryIs es k v = (map_of es k = (if nullish v then None else Some v))"
  by (auto simp: entryIs_def has_map_of atKey_def)

lemma map_of_absent_nullish: "map_of es k = None \<Longrightarrow> nullish (atKey es k)"
  by (simp add: atKey_def nullish_def)

lemma equalBy_Dict_iff:
  assumes dp: "distinct (getKeys p)" and dout: "distinct (getKeys out)"
  shows "equalBy (Dict r p) (Dict c out) is_val = (\<forall>s. map_of p (KStr s) = map_of out (KStr s))"
proof
  assume "equalBy (Dict r p) (Dict c out) is_val"
  then consider "p = out"
    | "length (getKeys p) = length (getKeys out)"
      "\<forall>k \<in> set (getKeys p). has out k \<and> atKey p k = atKey out k"
    by (auto simp: equalBy_Dict)
  then show "\<forall>s. map_of p (KStr s) = map_of out (KStr s)"
  proof cases
    case 1
    then show ?thesis by simp
  next
    case 2
    from 2(2) have sub: "set (getKeys p) \<subseteq> set (getKeys out)"
      by (auto simp: set_getKeys)
    have "card (set (getKeys p)) = card (set (getKeys out))"
      using 2(1) dp dout by (simp add: distinct_card)
    with sub have eq: "set (getKeys p) = set (getKeys out)"
      by (intro card_subset_eq) simp_all
    show ?thesis
    proof
      fix s
      show "map_of p (KStr s) = map_of out (KStr s)"
      proof (cases "has p (KStr s)")
        case True
        then have k: "KStr s \<in> set (getKeys p)" by (simp add: set_getKeys)
        with 2(2) have "has out (KStr s)" "atKey p (KStr s) = atKey out (KStr s)" by simp_all
        with True show ?thesis by (auto simp: has_map_of atKey_def)
      next
        case False
        then have "KStr s \<notin> set (getKeys p)" by (simp add: set_getKeys)
        then have "KStr s \<notin> set (getKeys out)" using eq by simp
        then have "\<not> has out (KStr s)" by (simp add: set_getKeys)
        with False show ?thesis by (simp add: has_map_of)
      qed
    qed
  qed
next
  assume m: "\<forall>s. map_of p (KStr s) = map_of out (KStr s)"
  then have eq: "set (getKeys p) = set (getKeys out)"
    by (auto simp: set_getKeys has_map_of)
  then have "card (set (getKeys p)) = card (set (getKeys out))" by simp
  then have len: "length (getKeys p) = length (getKeys out)"
    using dp dout by (simp add: distinct_card)
  have "has out k \<and> atKey p k = atKey out k" if "k \<in> set (getKeys p)" for k
  proof -
    from that obtain s where k: "k = KStr s" and h: "has p k" by (auto simp: set_getKeys)
    from m k have "map_of p k = map_of out k" by simp
    with h show ?thesis by (simp add: has_map_of atKey_def)
  qed
  with len show "equalBy (Dict r p) (Dict c out) is_val"
    by (simp add: equalBy_Dict)
qed

lemma patchDictBy_result:
  assumes dp: "distinct (getKeys p)" and dn: "distinct (getKeys n)"
    and res: "patchDictBy c (Dict r p) (Dict r' n) f = (res, c')"
  shows "isDict res \<and>
         (\<forall>s. (\<not> has n (KStr s) \<longrightarrow> entryIs (entries res) (KStr s) (atKey p (KStr s))) \<and>
              (has n (KStr s) \<longrightarrow>
                 (\<exists>c1. entryIs (entries res) (KStr s)
                         (fst (f c1 (atKey p (KStr s)) (atKey n (KStr s))))))) \<and>
         (res = Dict r p \<or> (\<forall>m. \<not> has (entries res) (KSym m)))"
proof -
  obtain out where loop: "dictLoop f p n (getKeys n) (keepLoop p n, Suc c) = (out, c')"
    and r: "res = (if equalBy (Dict r p) (Dict c out) is_val then Dict r p else Dict c out)"
    using res by (auto simp: patchDictBy_def split: prod.splits)
  have dout: "distinct (getKeys out)"
    by (rule distinct_getKeys, rule dictLoop_distinct [OF distinct_keepLoop loop])
  note L = dictLoop_map_of [OF dn loop]
  have out_old: "map_of out (KStr s) = (if nullish (atKey p (KStr s)) then None
                                         else Some (atKey p (KStr s)))"
    if "\<not> has n (KStr s)" for s
  proof -
    from that have "KStr s \<notin> set (getKeys n)" by (simp add: set_getKeys)
    with L have "map_of out (KStr s) = map_of (keepLoop p n) (KStr s)" by simp
    also have "\<dots> = (if has p (KStr s) \<and> \<not> nullish (atKey p (KStr s))
                       then Some (atKey p (KStr s)) else None)"
      using that by (simp add: map_of_keepLoop set_getKeys)
    also have "\<dots> = (if nullish (atKey p (KStr s)) then None else Some (atKey p (KStr s)))"
      using map_of_absent_nullish [of p "KStr s"] by (auto simp: has_map_of)
    finally show ?thesis .
  qed
  have out_new: "\<exists>c1. map_of out (KStr s) =
        (if nullish (fst (f c1 (atKey p (KStr s)) (atKey n (KStr s)))) then None
         else Some (fst (f c1 (atKey p (KStr s)) (atKey n (KStr s)))))"
    if "has n (KStr s)" for s
  proof -
    from that have k: "KStr s \<in> set (getKeys n)" by (simp add: set_getKeys)
    have "map_of (keepLoop p n) (KStr s) = None"
      using that by (simp add: map_of_keepLoop)
    with L k show ?thesis by force
  qed
  have out_sym: "map_of out (KSym m) = None" for m
  proof -
    have "KSym m \<notin> set (getKeys n)" by (simp add: set_getKeys)
    with L have "map_of out (KSym m) = map_of (keepLoop p n) (KSym m)" by simp
    then show ?thesis by (simp add: map_of_keepLoop set_getKeys)
  qed
  have str: "map_of (entries res) (KStr s) = map_of out (KStr s)" for s
    using equalBy_Dict_iff [OF dp dout, of r c] by (simp add: r)
  have "isDict res" by (simp add: r)
  moreover have "res = Dict r p \<or> (\<forall>m. \<not> has (entries res) (KSym m))"
    using out_sym by (simp add: r has_map_of)
  ultimately show ?thesis
    using out_old out_new by (simp add: entryIs_map_of str)
qed

lemma replaceDictBy_result:
  assumes dp: "distinct (getKeys p)" and dn: "distinct (getKeys n)"
    and res: "replaceDictBy c (Dict r p) (Dict r' n) f = (res, c')"
  shows "isDict res \<and>
         (\<forall>s. (\<not> has n (KStr s) \<longrightarrow> \<not> has (entries res) (KStr s)) \<and>
              (has n (KStr s) \<longrightarrow>
                 (\<exists>c1. entryIs (entries res) (KStr s)
                         (fst (f c1 (atKey p (KStr s)) (atKey n (KStr s)))))))"
proof -
  obtain out where loop: "dictLoop f p n (getKeys n) ([], Suc c) = (out, c')"
    and r: "res = (if equalBy (Dict r p) (Dict c out) is_val then Dict r p else Dict c out)"
    using res by (auto simp: replaceDictBy_def split: prod.splits)
  have dout: "distinct (getKeys out)"
    by (rule distinct_getKeys, rule dictLoop_distinct [OF _ loop]) simp
  note L = dictLoop_map_of [OF dn loop]
  have out_old: "map_of out (KStr s) = None" if "\<not> has n (KStr s)" for s
  proof -
    from that have "KStr s \<notin> set (getKeys n)" by (simp add: set_getKeys)
    with L show ?thesis by simp
  qed
  have out_new: "\<exists>c1. map_of out (KStr s) =
        (if nullish (fst (f c1 (atKey p (KStr s)) (atKey n (KStr s)))) then None
         else Some (fst (f c1 (atKey p (KStr s)) (atKey n (KStr s)))))"
    if "has n (KStr s)" for s
  proof -
    from that have k: "KStr s \<in> set (getKeys n)" by (simp add: set_getKeys)
    with L show ?thesis by force
  qed
  have str: "map_of (entries res) (KStr s) = map_of out (KStr s)" for s
    using equalBy_Dict_iff [OF dp dout, of r c] by (simp add: r)
  have "isDict res" by (simp add: r)
  then show ?thesis
    using out_old out_new by (simp add: entryIs_map_of has_map_of str)
qed

section \<open>Combine\<close>

lemma putAny_Num: "putAny c (Num a) next = (if Num a = next then Num a else next, c)"
  by (subst putAny.simps) (simp add: is_val_eq)

lemma putAny_Undefined: "putAny c Undefined next = (next, c)"
  by (subst putAny.simps) (auto simp: is_val_eq)

lemma alwaysDict_Dict: "alwaysDict c (Dict r es) = Inr (Dict r es, c)"
  by (simp add: alwaysDict_def nullish_def validate_def)

lemma patch_Dicts:
  "patch c (Dict r p) (Dict r' n) =
     (if Dict r p = Dict r' n then Inr (Dict r p, c)
      else Inr (patchDictBy c (Dict r p) (Dict r' n) putAny))"
  by (simp add: patch_def patchTwoDicts_def alwaysDict_Dict is_val_eq)

lemma patch_example:
  "patch c (Dict r [(KStr ''a'', Num (Integral 1)), (KStr ''b'', Num (Integral 2))])
           (Dict r' [(KStr ''b'', Num (Integral 3)), (KStr ''c'', Num (Integral 4))])
     = Inr (Dict c [(KStr ''a'', Num (Integral 1)), (KStr ''b'', Num (Integral 3)),
                    (KStr ''c'', Num (Integral 4))], Suc c)"
  by (simp add: patch_Dicts patchDictBy_def keepLoop_def atKey_def has_def nullish_def
                equalBy_Dict putAny_Num putAny_Undefined)

text \<open>
  Claim C3, as the code has it. Let \<open>prev\<close> and \<open>next\<close> be two dicts, each holding a string
  key once, that are not the same reference, with no dict in them holding the key
  \<^verbatim>\<open>__proto__\<close>. Then \<^verbatim>\<open>patch(prev, next)\<close> returns a dict
  whose string-keyed entries are: at every string key that \<open>next\<close> does not have, the
  value of \<open>prev\<close>, the key being absent when that value is nullish; at every string key of
  \<open>next\<close>, the result of \<^verbatim>\<open>putAny(prev[key], next[key])\<close> (called at some count of
  allocated objects), the key being absent when that result is nullish. The result has a
  symbol-keyed entry only when it is \<open>prev\<close> itself. When \<open>prev\<close> and \<open>next\<close> are the same
  reference, \<open>prev\<close> is returned as it is. And \<^verbatim>\<open>patch({a:1,b:2}, {b:3,c:4})\<close> is a new
  dict \<^verbatim>\<open>{a:1,b:3,c:4}\<close>.
\<close>

theorem patch_spec:
  "(distinct (getKeys p) \<and> distinct (getKeys n) \<and> Dict r p \<noteq> Dict r' n \<and>
    protoFree (Dict r p) \<and> protoFree (Dict r' n) \<longrightarrow>
      (\<exists>res c'. patch c (Dict r p) (Dict r' n) = Inr (res, c') \<and> isDict res \<and>
         (\<forall>s. (\<not> has n (KStr s) \<longrightarrow> entryIs (entries res) (KStr s) (atKey p (KStr s))) \<and>
              (has n (KStr s) \<longrightarrow>
                 (\<exists>c1. entryIs (entries res) (KStr s)
                         (fst (putAny c1 (atKey p (KStr s)) (atKey n (KStr s))))))) \<and>
         (res = Dict r p \<or> (\<forall>m. \<not> has (entries res) (KSym m)))))
   \<and> patch c (Dict r p) (Dict r p) = Inr (Dict r p, c)
   \<and> patch c (Dict r [(KStr ''a'', Num (Integral 1)), (KStr ''b'', Num (Integral 2))])
              (Dict r' [(KStr ''b'', Num (Integral 3)), (KStr ''c'', Num (Integral 4))])
        = Inr (Dict c [(KStr ''a'', Num (Integral 1)), (KStr ''b'', Num (Integral 3)),
                       (KStr ''c'', Num (Integral 4))], Suc c)"
proof (intro conjI impI)
  assume h: "distinct (getKeys p) \<and> distinct (getKeys n) \<and> Dict r p \<noteq> Dict r' n \<and>
    protoFree (Dict r p) \<and> protoFree (Dict r' n)"
  obtain res c' where res: "patchDictBy c (Dict r p) (Dict r' n) putAny = (res, c')"
    by (cases "patchDictBy c (Dict r p) (Dict r' n) putAny")
  from h have dp: "distinct (getKeys p)" and dn: "distinct (getKeys n)" by simp_all
  from h have ne: "Dict r p \<noteq> Dict r' n" by blast
  have "patch c (Dict r p) (Dict r' n) = Inr (res, c')"
    using ne res by (auto simp: patch_Dicts)
  with patchDictBy_result [OF dp dn res]
  show "\<exists>res c'. patch c (Dict r p) (Dict r' n) = Inr (res, c') \<and> isDict res \<and>
         (\<forall>s. (\<not> has n (KStr s) \<longrightarrow> entryIs (entries res) (KStr s) (atKey p (KStr s))) \<and>
              (has n (KStr s) \<longrightarrow>
                 (\<exists>c1. entryIs (entries res) (KStr s)
                         (fst (putAny c1 (atKey p (KStr s)) (atKey n (KStr s))))))) \<and>
         (res = Dict r p \<or> (\<forall>m. \<not> has (entries res) (KSym m)))"
    by blast
next
  show "patch c (Dict r p) (Dict r p) = Inr (Dict r p, c)"
    by (simp add: patch_Dicts)
next
  show "patch c (Dict r [(KStr ''a'', Num (Integral 1)), (KStr ''b'', Num (Integral 2))])
              (Dict r' [(KStr ''b'', Num (Integral 3)), (KStr ''c'', Num (Integral 4))])
        = Inr (Dict c [(KStr ''a'', Num (Integral 1)), (KStr ''b'', Num (Integral 3)),
                       (KStr ''c'', Num (Integral 4))], Suc c)"
    by (rule patch_example)
qed

theorem patch_spec_witness:
  "distinct (getKeys [(KStr ''a'', Num (Integral 1)), (KStr ''b'', Num (Integral 2))])
   \<and> distinct (getKeys [(KStr ''b'', Num (Integral 3)), (KStr ''c'', Num (Integral 4))])
   \<and> protoFree (Dict 0 [(KStr ''a'', Num (Integral 1)), (KStr ''b'', Num (Integral 2))])
   \<and> protoFree (Dict 1 [(KStr ''b'', Num (Integral 3)), (KStr ''c'', Num (Integral 4))])
   \<and> (\<exists>res c'. patch 2 (Dict 0 [(KStr ''a'', Num (Integral 1)), (KStr ''b'', Num (Integral 2))])
                        (Dict 1 [(KStr ''b'', Num (Integral 3)), (KStr ''c'', Num (Integral 4))])
                  = Inr (res, c')
                \<and> entryIs (entries res) (KStr ''a'') (Num (Integral 1))
                \<and> (\<exists>c1. entryIs (entries res) (KStr ''b'')
                          (fst (putAny c1 (Num (Integral 2)) (Num (Integral 3))))))
   \<and> patch 2 (Dict 0 [(KStr ''a'', Num (Integral 1)), (KStr ''b'', Num (Integral 2))])
              (Dict 1 [(KStr ''b'', Num (Integral 3)), (KStr ''c'', Num (Integral 4))])
        = Inr (Dict 2 [(KStr ''a'', Num (Integral 1)), (KStr ''b'', Num (Integral 3)),
                       (KStr ''c'', Num (Integral 4))], 3)"
proof -
  let ?p = "[(KStr ''a'', Num (Integral 1)), (KStr ''b'', Num (Integral 2))]"
  let ?n = "[(KStr ''b'', Num (Integral 3)), (KStr ''c'', Num (Integral 4))]"
  have d: "distinct (getKeys ?p) \<and> distinct (getKeys ?n) \<and> Dict 0 ?p \<noteq> Dict 1 ?n \<and>
    protoFree (Dict 0 ?p) \<and> protoFree (Dict 1 ?n)"
    by (simp add: has_def)
  have a: "\<not> has ?n (KStr ''a'')" "atKey ?p (KStr ''a'') = Num (Integral 1)"
    and b: "has ?n (KStr ''b'')" "atKey ?p (KStr ''b'') = Num (Integral 2)"
           "atKey ?n (KStr ''b'') = Num (Integral 3)"
    by (simp_all add: has_def atKey_def)
  from patch_spec [of ?p ?n 0 1 2] d
  obtain res c' where r: "patch 2 (Dict 0 ?p) (Dict 1 ?n) = Inr (res, c')"
    and e: "\<forall>s. (\<not> has ?n (KStr s) \<longrightarrow> entryIs (entries res) (KStr s) (atKey ?p (KStr s))) \<and>
              (has ?n (KStr s) \<longrightarrow>
                 (\<exists>c1. entryIs (entries res) (KStr s)
                         (fst (putAny c1 (atKey ?p (KStr s)) (atKey ?n (KStr s))))))"
    by blast
  from e a have ea: "entryIs (entries res) (KStr ''a'') (Num (Integral 1))" by metis
  from e b have eb: "\<exists>c1. entryIs (entries res) (KStr ''b'')
                          (fst (putAny c1 (Num (Integral 2)) (Num (Integral 3))))" by metis
  have x: "patch 2 (Dict 0 ?p) (Dict 1 ?n)
        = Inr (Dict 2 [(KStr ''a'', Num (Integral 1)), (KStr ''b'', Num (Integral 3)),
                       (KStr ''c'', Num (Integral 4))], 3)"
    using patch_spec [of ?p ?n 0 1 2] by simp
  from d r ea eb x show ?thesis by blast
qed

lemma patch_drops_symbol:
  "patch 2 (Dict 0 [(KSym 0, Num (Integral 1)), (KStr ''a'', Num (Integral 1))])
           (Dict 1 [(KStr ''a'', Num (Integral 2))])
     = Inr (Dict 2 [(KStr ''a'', Num (Integral 2))], 3)"
  by code_simp

lemma patch_same_keeps_null:
  "patch 1 (Dict 0 [(KStr ''a'', Null)]) (Dict 0 [(KStr ''a'', Null)])
     = Inr (Dict 0 [(KStr ''a'', Null)], 1)"
  by code_simp

text \<open>
  Claim C3 as stated fails. \<^verbatim>\<open>Object.keys\<close> does not list symbol keys, so the entry of
  \<open>prev\<close> under a symbol, which \<open>next\<close> does not override, is missing from the result of
  \<^verbatim>\<open>patch({[sym]: 1, a: 1}, {a: 2})\<close>. And when both arguments are the same dict
  \<^verbatim>\<open>{a: null}\<close>, the result still has the key \<^verbatim>\<open>a\<close>, although
  \<^verbatim>\<open>putAny(null, null)\<close> is nullish.
\<close>

theorem patch_spec_counterexample:
  "has [(KSym 0, Num (Integral 1)), (KStr ''a'', Num (Integral 1))] (KSym 0)
   \<and> \<not> has [(KStr ''a'', Num (Integral 2))] (KSym 0)
   \<and> patch 2 (Dict 0 [(KSym 0, Num (Integral 1)), (KStr ''a'', Num (Integral 1))])
              (Dict 1 [(KStr ''a'', Num (Integral 2))])
        = Inr (Dict 2 [(KStr ''a'', Num (Integral 2))], 3)
   \<and> nullish (fst (putAny 1 Null Null))
   \<and> patch 1 (Dict 0 [(KStr ''a'', Null)]) (Dict 0 [(KStr ''a'', Null)])
        = Inr (Dict 0 [(KStr ''a'', Null)], 1)"
  using patch_drops_symbol patch_same_keeps_null
  by (simp add: has_def putAny_same nullish_def)

lemma merge_same: "isDict v \<Longrightarrow> merge c v v = Inr (v, c)"
  by (cases v) (simp_all add: merge_def mergeTwoDicts_def alwaysDict_Dict mergeTwo.simps is_val_eq)

lemma patch_empty:
  assumes d: "distinct (getKeys es)" and nn: "list_all (\<lambda>k. \<not> nullish (atKey es k)) (getKeys es)"
  shows "\<exists>c'. patch c (Dict r es) (Dict r' []) = Inr (Dict r es, c')"
proof (cases "Dict r es = Dict r' []")
  case True
  then show ?thesis by (simp add: patch_Dicts)
next
  case False
  have dk: "distinct (getKeys (keepLoop es []))"
    by (rule distinct_getKeys, rule distinct_keepLoop)
  have "map_of es (KStr s) = map_of (keepLoop es []) (KStr s)" for s
  proof (cases "has es (KStr s)")
    case True
    then have k: "KStr s \<in> set (getKeys es)" by (simp add: set_getKeys)
    with nn have "\<not> nullish (atKey es (KStr s))" by (simp add: list_all_iff)
    with k True show ?thesis
      by (auto simp: map_of_keepLoop atKey_def has_map_of)
  next
    case False
    then have "KStr s \<notin> set (getKeys es)" by (simp add: set_getKeys)
    with False show ?thesis by (simp add: map_of_keepLoop has_map_of)
  qed
  then have "equalBy (Dict r es) (Dict c (keepLoop es [])) is_val"
    by (simp add: equalBy_Dict_iff [OF d dk])
  with False show ?thesis
    by (simp add: patch_Dicts patchDictBy_def)
qed

text \<open>
  Claim C8, as the code has it. For every dict \<open>v\<close> that holds each string key once, does
  not hold the key \<^verbatim>\<open>__proto__\<close> and has no nullish value under a string key,
  \<^verbatim>\<open>patch(v, {})\<close> returns \<open>v\<close> itself; for every dict \<open>v\<close>, \<^verbatim>\<open>merge(v, v)\<close> returns \<open>v\<close>
  itself.
\<close>

theorem patch_empty_merge_self:
  "(distinct (getKeys es) \<and> \<not> has es (KStr ''__proto__'') \<and>
    list_all (\<lambda>k. \<not> nullish (atKey es k)) (getKeys es) \<longrightarrow>
      (\<exists>c'. patch c (Dict r es) (Dict r' []) = Inr (Dict r es, c')))
   \<and> (isDict v \<longrightarrow> merge c v v = Inr (v, c))"
  using patch_empty [of es c r r'] merge_same [of v c] by blast

theorem patch_empty_merge_self_witness:
  "distinct (getKeys [(KStr ''a'', Num (Integral 1))])
   \<and> \<not> has [(KStr ''a'', Num (Integral 1))] (KStr ''__proto__'')
   \<and> (\<exists>c'. patch 2 (Dict 0 [(KStr ''a'', Num (Integral 1))]) (Dict 1 [])
             = Inr (Dict 0 [(KStr ''a'', Num (Integral 1))], c'))
   \<and> isDict (Dict 0 [(KStr ''a'', Num (Integral 1))])
   \<and> merge 2 (Dict 0 [(KStr ''a'', Num (Integral 1))]) (Dict 0 [(KStr ''a'', Num (Integral 1))])
       = Inr (Dict 0 [(KStr ''a'', Num (Integral 1))], 2)"
  using patch_empty_merge_self [of "[(KStr ''a'', Num (Integral 1))]" 2 0 1
          "Dict 0 [(KStr ''a'', Num (Integral 1))]"]
  by (simp add: atKey_def nullish_def has_def)

lemma patch_null_entry:
  "patch 2 (Dict 0 [(KStr ''a'', Null)]) (Dict 1 []) = Inr (Dict 2 [], 3)"
  by code_simp

lemma patch_non_dict:
  "patch 1 (Num (Integral 5)) (Dict 0 []) = Inl (Expected (Num (Integral 5)) IsDict)"
  by code_simp

lemma merge_non_dict:
  "merge 0 (Num (Integral 5)) (Num (Integral 5)) = Inl (Expected (Num (Integral 5)) IsDict)"
  by code_simp

lemma merge_undefined:
  "merge 0 Undefined Undefined = Inr (Dict 0 [], 3)"
  by code_simp

text \<open>
  Claim C8 as stated fails. \<^verbatim>\<open>patch({a: null}, {})\<close> returns a new, empty dict;
  \<^verbatim>\<open>patch(5, {})\<close> and \<^verbatim>\<open>merge(5, 5)\<close> fail in \<^verbatim>\<open>alwaysDict\<close>; and
  \<^verbatim>\<open>merge(undefined, undefined)\<close> returns a new, empty dict, not \<^verbatim>\<open>undefined\<close>.
\<close>

theorem patch_empty_merge_self_counterexample:
  "patch 2 (Dict 0 [(KStr ''a'', Null)]) (Dict 1 []) = Inr (Dict 2 [], 3)
   \<and> patch 1 (Num (Integral 5)) (Dict 0 []) = Inl (Expected (Num (Integral 5)) IsDict)
   \<and> merge 0 (Num (Integral 5)) (Num (Integral 5)) = Inl (Expected (Num (Integral 5)) IsDict)
   \<and> merge 0 Undefined Undefined = Inr (Dict 0 [], 3)"
  using patch_null_entry patch_non_dict merge_non_dict merge_undefined
  by simp

lemma merge_Dicts:
  "merge c (Dict r p) (Dict r' n) = Inr (mergeTwo c (Dict r p) (Dict r' n))"
  by (simp add: merge_def mergeTwoDicts_def alwaysDict_Dict)

lemma mergeOrPut_entry:
  assumes "\<exists>c1. entryIs es k (fst (mergeOrPut c1 x y))"
  shows "(isDict y \<longrightarrow> (\<exists>c1. entryIs es k (fst (mergeTwo c1 x y)))) \<and>
         (\<not> isDict y \<longrightarrow> (\<exists>c1. entryIs es k (fst (putAny c1 x y))))"
  using assms by (auto simp: mergeOrPut.simps)

lemma mergeTwo_result:
  assumes d: "isDict next" and ne: "prev \<noteq> next"
    and dp: "distinct (getKeys (entries prev))" and dn: "distinct (getKeys (entries next))"
  shows "\<exists>res c'. mergeTwo c prev next = (res, c') \<and> isDict res \<and>
         (\<forall>s. (\<not> has (entries next) (KStr s) \<longrightarrow>
                 entryIs (entries res) (KStr s) (atKey (entries prev) (KStr s))) \<and>
              (has (entries next) (KStr s) \<and> isDict (atKey (entries next) (KStr s)) \<longrightarrow>
                 (\<exists>c1. entryIs (entries res) (KStr s)
                    (fst (mergeTwo c1 (atKey (entries prev) (KStr s))
                                      (atKey (entries next) (KStr s)))))) \<and>
              (has (entries next) (KStr s) \<and> \<not> isDict (atKey (entries next) (KStr s)) \<longrightarrow>
                 (\<exists>c1. entryIs (entries res) (KStr s)
                    (fst (putAny c1 (atKey (entries prev) (KStr s))
                                    (atKey (entries next) (KStr s)))))))"
proof -
  obtain res c' where res: "mergeTwo c prev next = (res, c')" by (cases "mergeTwo c prev next")
  obtain r' n where nx: "next = Dict r' n" using d by (cases "next") simp_all
  obtain pd c2 where t: "toDict c prev = (pd, c2)" by (cases "toDict c prev")
  then obtain rp where pd: "pd = Dict rp (entries prev)"
    by (cases prev) (auto simp: toDict_def)
  have tn: "toDict c2 next = (next, c2)" by (simp add: nx toDict_def)
  from ne res t tn
  have p: "patchDictBy c2 (Dict rp (entries prev)) (Dict r' n) mergeOrPut = (res, c')"
    by (simp add: mergeTwo.simps is_val_eq pd nx)
  from dn have dn': "distinct (getKeys n)" by (simp add: nx)
  note R = patchDictBy_result [OF dp dn' p]
  have m: "has n (KStr s) \<longrightarrow>
           (\<exists>c1. entryIs (entries res) (KStr s)
              (fst (mergeOrPut c1 (atKey (entries prev) (KStr s)) (atKey n (KStr s)))))" for s
    using R by simp
  have "isDict res" using R by simp
  moreover have "\<not> has (entries next) (KStr s) \<longrightarrow>
          entryIs (entries res) (KStr s) (atKey (entries prev) (KStr s))" for s
    using R by (simp add: nx)
  moreover have "has (entries next) (KStr s) \<and> isDict (atKey (entries next) (KStr s)) \<longrightarrow>
          (\<exists>c1. entryIs (entries res) (KStr s)
             (fst (mergeTwo c1 (atKey (entries prev) (KStr s))
                               (atKey (entries next) (KStr s)))))" for s
    using m [of s] mergeOrPut_entry [of "entries res" "KStr s" "atKey (entries prev) (KStr s)"
            "atKey n (KStr s)"]
    by (simp add: nx)
  moreover have "has (entries next) (KStr s) \<and> \<not> isDict (atKey (entries next) (KStr s)) \<longrightarrow>
          (\<exists>c1. entryIs (entries res) (KStr s)
             (fst (putAny c1 (atKey (entries prev) (KStr s))
                             (atKey (entries next) (KStr s)))))" for s
    using m [of s] mergeOrPut_entry [of "entries res" "KStr s" "atKey (entries prev) (KStr s)"
            "atKey n (KStr s)"]
    by (simp add: nx)
  ultimately show ?thesis using res by blast
qed

lemma putAny_Dicts_result:
  assumes d: "isDict prev" "isDict next" and ne: "prev \<noteq> next"
    and dp: "distinct (getKeys (entries prev))" and dn: "distinct (getKeys (entries next))"
  shows "\<exists>res c'. putAny c prev next = (res, c') \<and> isDict res \<and>
         (\<forall>s. (\<not> has (entries next) (KStr s) \<longrightarrow> \<not> has (entries res) (KStr s)) \<and>
              (has (entries next) (KStr s) \<longrightarrow>
                 (\<exists>c1. entryIs (entries res) (KStr s)
                    (fst (putAny c1 (atKey (entries prev) (KStr s))
                                    (atKey (entries next) (KStr s)))))))"
proof -
  obtain res c' where res: "putAny c prev next = (res, c')" by (cases "putAny c prev next")
  obtain r p where pv: "prev = Dict r p" using d(1) by (cases prev) simp_all
  obtain r' n where nx: "next = Dict r' n" using d(2) by (cases "next") simp_all
  from ne res have "replaceDictBy c (Dict r p) (Dict r' n) putAny = (res, c')"
    unfolding pv nx by (subst (asm) putAny.simps) (auto simp: is_val_eq split: if_splits)
  from replaceDictBy_result [OF _ _ this] dp dn res show ?thesis
    by (simp add: pv nx)
qed

text \<open>
  Claim C4. \<^verbatim>\<open>merge\<close> combines the dicts under a shared key, where \<^verbatim>\<open>patch\<close> replaces
  the one by the other. On two dicts \<^verbatim>\<open>merge\<close> is \<^verbatim>\<open>mergeTwo\<close>, and at a key
  \<^verbatim>\<open>mergeOrPut\<close> is \<^verbatim>\<open>mergeTwo\<close> when the value of \<open>next\<close> is a dict and \<open>putAny\<close> when it
  is not. Let \<open>next\<close> be a dict and \<open>prev\<close> any other value, each dict of the two holding a
  string key once and none holding the key \<^verbatim>\<open>__proto__\<close>. Then
  \<^verbatim>\<open>mergeTwo(prev, next)\<close> is a dict that holds: at every string key that \<open>next\<close> does not
  have, the value of \<open>prev\<close>, unless nullish; at every string key where \<open>next\<close> has a dict,
  the result of \<^verbatim>\<open>mergeTwo(prev[key], next[key])\<close>, to which the same applies in turn; at
  every string key where \<open>next\<close> has another value, the result of
  \<^verbatim>\<open>putAny(prev[key], next[key])\<close>, unless nullish. \<^verbatim>\<open>patch\<close> holds at every string key
  of \<open>next\<close> the result of \<^verbatim>\<open>putAny(prev[key], next[key])\<close>, unless nullish, and
  \<open>putAny\<close> of two dicts that are not the same reference holds no string key that \<open>next\<close>
  does not have. For \<^verbatim>\<open>v1 = {a: {x: 1}}\<close> and \<^verbatim>\<open>v2 = {a: {y: 2}}\<close>, \<^verbatim>\<open>merge(v1, v2)\<close>
  is \<^verbatim>\<open>{a: {x: 1, y: 2}}\<close> and \<^verbatim>\<open>patch(v1, v2)\<close> is \<^verbatim>\<open>{a: {y: 2}}\<close>, whatever the
  references of the four dicts.
\<close>

theorem merge_deep_patch_flat:
  "merge c (Dict r1 [(KStr ''a'', Dict r2 [(KStr ''x'', Num (Integral 1))])])
           (Dict r3 [(KStr ''a'', Dict r4 [(KStr ''y'', Num (Integral 2))])])
     = Inr (Dict c [(KStr ''a'',
                     Dict (Suc c) [(KStr ''x'', Num (Integral 1)), (KStr ''y'', Num (Integral 2))])],
            Suc (Suc c))
   \<and> patch c (Dict r1 [(KStr ''a'', Dict r2 [(KStr ''x'', Num (Integral 1))])])
              (Dict r3 [(KStr ''a'', Dict r4 [(KStr ''y'', Num (Integral 2))])])
        = Inr (Dict c [(KStr ''a'', Dict (Suc c) [(KStr ''y'', Num (Integral 2))])], Suc (Suc c))
   \<and> (isDict next \<longrightarrow> mergeOrPut c' prev next = mergeTwo c' prev next)
   \<and> (\<not> isDict next \<longrightarrow> mergeOrPut c' prev next = putAny c' prev next)
   \<and> merge c' (Dict r p) (Dict r' n) = Inr (mergeTwo c' (Dict r p) (Dict r' n))
   \<and> (isDict next \<and> prev \<noteq> next \<and> distinct (getKeys (entries prev)) \<and>
       distinct (getKeys (entries next)) \<and> protoFree prev \<and> protoFree next \<longrightarrow>
        (\<exists>res c''. mergeTwo c' prev next = (res, c'') \<and> isDict res \<and>
           (\<forall>s. (\<not> has (entries next) (KStr s) \<longrightarrow>
                   entryIs (entries res) (KStr s) (atKey (entries prev) (KStr s))) \<and>
                (has (entries next) (KStr s) \<and> isDict (atKey (entries next) (KStr s)) \<longrightarrow>
                   (\<exists>c1. entryIs (entries res) (KStr s)
                      (fst (mergeTwo c1 (atKey (entries prev) (KStr s))
                                        (atKey (entries next) (KStr s)))))) \<and>
                (has (entries next) (KStr s) \<and> \<not> isDict (atKey (entries next) (KStr s)) \<longrightarrow>
                   (\<exists>c1. entryIs (entries res) (KStr s)
                      (fst (putAny c1 (atKey (entries prev) (KStr s))
                                      (atKey (entries next) (KStr s)))))))))
   \<and> (distinct (getKeys p) \<and> distinct (getKeys n) \<and> Dict r p \<noteq> Dict r' n \<and>
       protoFree (Dict r p) \<and> protoFree (Dict r' n) \<longrightarrow>
        (\<exists>res c''. patch c' (Dict r p) (Dict r' n) = Inr (res, c'') \<and> isDict res \<and>
           (\<forall>s. (\<not> has n (KStr s) \<longrightarrow> entryIs (entries res) (KStr s) (atKey p (KStr s))) \<and>
                (has n (KStr s) \<longrightarrow>
                   (\<exists>c1. entryIs (entries res) (KStr s)
                      (fst (putAny c1 (atKey p (KStr s)) (atKey n (KStr s)))))))))
   \<and> (isDict prev \<and> isDict next \<and> prev \<noteq> next \<and> distinct (getKeys (entries prev)) \<and>
       distinct (getKeys (entries next)) \<and> protoFree prev \<and> protoFree next \<longrightarrow>
        (\<exists>res c''. putAny c' prev next = (res, c'') \<and> isDict res \<and>
           (\<forall>s. (\<not> has (entries next) (KStr s) \<longrightarrow> \<not> has (entries res) (KStr s)) \<and>
                (has (entries next) (KStr s) \<longrightarrow>
                   (\<exists>c1. entryIs (entries res) (KStr s)
                      (fst (putAny c1 (atKey (entries prev) (KStr s))
                                      (atKey (entries next) (KStr s)))))))))"
proof (intro conjI impI)
  show "merge c (Dict r1 [(KStr ''a'', Dict r2 [(KStr ''x'', Num (Integral 1))])])
           (Dict r3 [(KStr ''a'', Dict r4 [(KStr ''y'', Num (Integral 2))])])
     = Inr (Dict c [(KStr ''a'',
                     Dict (Suc c) [(KStr ''x'', Num (Integral 1)), (KStr ''y'', Num (Integral 2))])],
            Suc (Suc c))"
    by (simp add: merge_def mergeTwoDicts_def alwaysDict_Dict is_val_eq toDict_def
                  patchDictBy_def keepLoop_def atKey_def has_def nullish_def equalBy_Dict
                  mergeTwo.simps mergeOrPut.simps putAny_Num putAny_Undefined)
next
  show "patch c (Dict r1 [(KStr ''a'', Dict r2 [(KStr ''x'', Num (Integral 1))])])
              (Dict r3 [(KStr ''a'', Dict r4 [(KStr ''y'', Num (Integral 2))])])
        = Inr (Dict c [(KStr ''a'', Dict (Suc c) [(KStr ''y'', Num (Integral 2))])], Suc (Suc c))"
    by (simp add: patch_Dicts patchDictBy_def replaceDictBy_def keepLoop_def atKey_def has_def
                  nullish_def equalBy_Dict is_val_eq putAny_Undefined
                  putAny.simps [of _ "Dict r2 xs" for xs])
next
  assume "isDict next"
  then show "mergeOrPut c' prev next = mergeTwo c' prev next"
    by (simp add: mergeOrPut.simps)
next
  assume "\<not> isDict next"
  then show "mergeOrPut c' prev next = putAny c' prev next"
    by (simp add: mergeOrPut.simps)
next
  show "merge c' (Dict r p) (Dict r' n) = Inr (mergeTwo c' (Dict r p) (Dict r' n))"
    by (rule merge_Dicts)
next
  assume h: "isDict next \<and> prev \<noteq> next \<and> distinct (getKeys (entries prev)) \<and>
       distinct (getKeys (entries next)) \<and> protoFree prev \<and> protoFree next"
  then have "isDict next" "prev \<noteq> next" "distinct (getKeys (entries prev))"
    "distinct (getKeys (entries next))" by simp_all
  then show "\<exists>res c''. mergeTwo c' prev next = (res, c'') \<and> isDict res \<and>
           (\<forall>s. (\<not> has (entries next) (KStr s) \<longrightarrow>
                   entryIs (entries res) (KStr s) (atKey (entries prev) (KStr s))) \<and>
                (has (entries next) (KStr s) \<and> isDict (atKey (entries next) (KStr s)) \<longrightarrow>
                   (\<exists>c1. entryIs (entries res) (KStr s)
                      (fst (mergeTwo c1 (atKey (entries prev) (KStr s))
                                        (atKey (entries next) (KStr s)))))) \<and>
                (has (entries next) (KStr s) \<and> \<not> isDict (atKey (entries next) (KStr s)) \<longrightarrow>
                   (\<exists>c1. entryIs (entries res) (KStr s)
                      (fst (putAny c1 (atKey (entries prev) (KStr s))
                                      (atKey (entries next) (KStr s)))))))"
    by (rule mergeTwo_result)
next
  assume h: "distinct (getKeys p) \<and> distinct (getKeys n) \<and> Dict r p \<noteq> Dict r' n \<and>
       protoFree (Dict r p) \<and> protoFree (Dict r' n)"
  obtain res c'' where res: "patchDictBy c' (Dict r p) (Dict r' n) putAny = (res, c'')"
    by (cases "patchDictBy c' (Dict r p) (Dict r' n) putAny")
  from h have dp: "distinct (getKeys p)" and dn: "distinct (getKeys n)" by simp_all
  from h have ne: "Dict r p \<noteq> Dict r' n" by blast
  have "patch c' (Dict r p) (Dict r' n) = Inr (res, c'')"
    using ne res by (auto simp: patch_Dicts)
  with patchDictBy_result [OF dp dn res]
  show "\<exists>res c''. patch c' (Dict r p) (Dict r' n) = Inr (res, c'') \<and> isDict res \<and>
           (\<forall>s. (\<not> has n (KStr s) \<longrightarrow> entryIs (entries res) (KStr s) (atKey p (KStr s))) \<and>
                (has n (KStr s) \<longrightarrow>
                   (\<exists>c1. entryIs (entries res) (KStr s)
                      (fst (putAny c1 (atKey p (KStr s)) (atKey n (KStr s)))))))"
    by blast
next
  assume h: "isDict prev \<and> isDict next \<and> prev \<noteq> next \<and> distinct (getKeys (entries prev)) \<and>
       distinct (getKeys (entries next)) \<and> protoFree prev \<and> protoFree next"
  then have "isDict prev" "isDict next" "prev \<noteq> next" "distinct (getKeys (entries prev))"
    "distinct (getKeys (entries next))" by simp_all
  then show "\<exists>res c''. putAny c' prev next = (res, c'') \<and> isDict res \<and>
           (\<forall>s. (\<not> has (entries next) (KStr s) \<longrightarrow> \<not> has (entries res) (KStr s)) \<and>
                (has (entries next) (KStr s) \<longrightarrow>
                   (\<exists>c1. entryIs (entries res) (KStr s)
                      (fst (putAny c1 (atKey (entries prev) (KStr s))
                                      (atKey (entries next) (KStr s)))))))"
    by (rule putAny_Dicts_result)
qed

theorem merge_deep_patch_flat_witness:
  "merge 4 (Dict 0 [(KStr ''a'', Dict 1 [(KStr ''x'', Num (Integral 1))])])
           (Dict 2 [(KStr ''a'', Dict 3 [(KStr ''y'', Num (Integral 2))])])
     = Inr (Dict 4 [(KStr ''a'',
                     Dict 5 [(KStr ''x'', Num (Integral 1)), (KStr ''y'', Num (Integral 2))])], 6)
   \<and> patch 4 (Dict 0 [(KStr ''a'', Dict 1 [(KStr ''x'', Num (Integral 1))])])
              (Dict 2 [(KStr ''a'', Dict 3 [(KStr ''y'', Num (Integral 2))])])
        = Inr (Dict 4 [(KStr ''a'', Dict 5 [(KStr ''y'', Num (Integral 2))])], 6)
   \<and> \<not> isDict (Num (Integral 2))
   \<and> mergeOrPut 4 (Num (Integral 1)) (Num (Integral 2)) = (Num (Integral 2), 4)
   \<and> isDict (Dict 1 [])
   \<and> mergeOrPut 4 (Dict 1 []) (Dict 1 []) = (Dict 1 [], 4)
   \<and> protoFree (Dict 0 [(KStr ''a'', Dict 1 [(KStr ''x'', Num (Integral 1))])])
   \<and> protoFree (Dict 2 [(KStr ''a'', Dict 3 [(KStr ''y'', Num (Integral 2))])])
   \<and> (\<exists>res c''. mergeTwo 4 (Dict 0 [(KStr ''a'', Dict 1 [(KStr ''x'', Num (Integral 1))])])
                           (Dict 2 [(KStr ''a'', Dict 3 [(KStr ''y'', Num (Integral 2))])])
                   = (res, c'')
                 \<and> (\<exists>c1. entryIs (entries res) (KStr ''a'')
                       (fst (mergeTwo c1 (Dict 1 [(KStr ''x'', Num (Integral 1))])
                                         (Dict 3 [(KStr ''y'', Num (Integral 2))])))))
   \<and> (\<exists>res c''. patch 4 (Dict 0 [(KStr ''a'', Dict 1 [(KStr ''x'', Num (Integral 1))])])
                         (Dict 2 [(KStr ''a'', Dict 3 [(KStr ''y'', Num (Integral 2))])])
                   = Inr (res, c'')
                 \<and> (\<exists>c1. entryIs (entries res) (KStr ''a'')
                       (fst (putAny c1 (Dict 1 [(KStr ''x'', Num (Integral 1))])
                                       (Dict 3 [(KStr ''y'', Num (Integral 2))])))))
   \<and> (\<exists>res c''. putAny 4 (Dict 1 [(KStr ''x'', Num (Integral 1))])
                          (Dict 3 [(KStr ''y'', Num (Integral 2))]) = (res, c'')
                 \<and> \<not> has (entries res) (KStr ''x''))"
proof -
  let ?v1 = "Dict 0 [(KStr ''a'', Dict 1 [(KStr ''x'', Num (Integral 1))])]"
  let ?v2 = "Dict 2 [(KStr ''a'', Dict 3 [(KStr ''y'', Num (Integral 2))])]"
  let ?x = "Dict 1 [(KStr ''x'', Num (Integral 1))]"
  let ?y = "Dict 3 [(KStr ''y'', Num (Integral 2))]"
  note T1 = merge_deep_patch_flat [of 4 0 1 2 3 "Num (Integral 2)" 4 "Num (Integral 1)" 0
              "[(KStr ''a'', ?x)]" 2 "[(KStr ''a'', ?y)]"]
  note T2 = merge_deep_patch_flat [of 4 0 1 2 3 "Dict 1 []" 4 "Dict 1 []" 0
              "[(KStr ''a'', ?x)]" 2 "[(KStr ''a'', ?y)]"]
  note T3 = merge_deep_patch_flat [of 4 0 1 2 3 ?v2 4 ?v1 0
              "[(KStr ''a'', ?x)]" 2 "[(KStr ''a'', ?y)]"]
  note T4 = merge_deep_patch_flat [of 4 0 1 2 3 ?y 4 ?x 0
              "[(KStr ''a'', ?x)]" 2 "[(KStr ''a'', ?y)]"]
  have pf: "protoFree ?v1" "protoFree ?v2" "protoFree ?x" "protoFree ?y"
    by (simp_all add: has_def)
  have ex: "merge 4 ?v1 ?v2
     = Inr (Dict 4 [(KStr ''a'',
                     Dict 5 [(KStr ''x'', Num (Integral 1)), (KStr ''y'', Num (Integral 2))])], 6)"
    "patch 4 ?v1 ?v2 = Inr (Dict 4 [(KStr ''a'', Dict 5 [(KStr ''y'', Num (Integral 2))])], 6)"
    using T1 [THEN conjunct1] T1 [THEN conjunct2, THEN conjunct1]
    by (simp_all add: eval_nat_numeral)
  have mp: "mergeOrPut 4 (Num (Integral 1)) (Num (Integral 2)) = (Num (Integral 2), 4)"
    "mergeOrPut 4 (Dict 1 []) (Dict 1 []) = (Dict 1 [], 4)"
    using T1 [THEN conjunct2, THEN conjunct2, THEN conjunct2, THEN conjunct1]
          T2 [THEN conjunct2, THEN conjunct2, THEN conjunct1]
    by (simp_all add: putAny_Num mergeTwo.simps is_val_eq)
  have k: "has [(KStr ''a'', ?y)] (KStr ''a'')" "isDict (atKey [(KStr ''a'', ?y)] (KStr ''a''))"
    "atKey [(KStr ''a'', ?x)] (KStr ''a'') = ?x" "atKey [(KStr ''a'', ?y)] (KStr ''a'') = ?y"
    "\<not> has [(KStr ''y'', Num (Integral 2))] (KStr ''x'')"
    by (simp_all add: has_def atKey_def)
  have m: "\<exists>res c''. mergeTwo 4 ?v1 ?v2 = (res, c'')
                 \<and> (\<exists>c1. entryIs (entries res) (KStr ''a'') (fst (mergeTwo c1 ?x ?y)))"
  proof -
    from T3 [THEN conjunct2, THEN conjunct2, THEN conjunct2, THEN conjunct2, THEN conjunct2,
             THEN conjunct1] pf
    obtain res c'' where r: "mergeTwo 4 ?v1 ?v2 = (res, c'')"
      and e: "\<forall>s. has (entries ?v2) (KStr s) \<and> isDict (atKey (entries ?v2) (KStr s)) \<longrightarrow>
                   (\<exists>c1. entryIs (entries res) (KStr s)
                      (fst (mergeTwo c1 (atKey (entries ?v1) (KStr s))
                                        (atKey (entries ?v2) (KStr s)))))"
      by (auto simp: has_def)
    from e [rule_format, of "''a''"] k
    have "\<exists>c1. entryIs (entries res) (KStr ''a'') (fst (mergeTwo c1 ?x ?y))" by simp
    with r show ?thesis by blast
  qed
  have q: "\<exists>res c''. patch 4 ?v1 ?v2 = Inr (res, c'')
                 \<and> (\<exists>c1. entryIs (entries res) (KStr ''a'') (fst (putAny c1 ?x ?y)))"
  proof -
    from T3 [THEN conjunct2, THEN conjunct2, THEN conjunct2, THEN conjunct2, THEN conjunct2,
             THEN conjunct2, THEN conjunct1] pf
    obtain res c'' where r: "patch 4 ?v1 ?v2 = Inr (res, c'')"
      and e: "\<forall>s. has [(KStr ''a'', ?y)] (KStr s) \<longrightarrow>
                   (\<exists>c1. entryIs (entries res) (KStr s)
                      (fst (putAny c1 (atKey [(KStr ''a'', ?x)] (KStr s))
                                      (atKey [(KStr ''a'', ?y)] (KStr s)))))"
      by (auto simp: has_def)
    from e [rule_format, of "''a''"] k
    have "\<exists>c1. entryIs (entries res) (KStr ''a'') (fst (putAny c1 ?x ?y))" by simp
    with r show ?thesis by blast
  qed
  have u: "\<exists>res c''. putAny 4 ?x ?y = (res, c'') \<and> \<not> has (entries res) (KStr ''x'')"
  proof -
    from T4 [THEN conjunct2, THEN conjunct2, THEN conjunct2, THEN conjunct2, THEN conjunct2,
             THEN conjunct2, THEN conjunct2] pf
    obtain res c'' where r: "putAny 4 ?x ?y = (res, c'')"
      and e: "\<forall>s. \<not> has (entries ?y) (KStr s) \<longrightarrow> \<not> has (entries res) (KStr s)"
      by (auto simp: has_def)
    from e [rule_format, of "''x''"] k have "\<not> has (entries res) (KStr ''x'')" by simp
    with r show ?thesis by blast
  qed
  from ex mp pf(1,2) m q u show ?thesis by simp
qed

section \<open>Path update\<close>

text \<open>
  Claim C2. Let \<open>v\<close> be \<^verbatim>\<open>{a: {b: 1, c: x}}\<close>, with any value \<open>x\<close> in the place of the
  sibling \<^verbatim>\<open>2\<close> of the claim. \<^verbatim>\<open>putIn(v, ['a','b'], 1)\<close> returns \<open>v\<close> itself and
  allocates nothing. When \<open>x\<close> is not nullish, \<^verbatim>\<open>putIn(v, ['a','b'], 9)\<close> returns a new
  top-level dict, holding under \<^verbatim>\<open>a\<close> a new dict in which \<^verbatim>\<open>c\<close> is still \<open>x\<close>, the
  same reference, and \<^verbatim>\<open>b\<close> is \<^verbatim>\<open>9\<close>.
\<close>

theorem putIn_path_sharing:
  "putIn n (Dict r0 [(KStr ''a'', Dict r1 [(KStr ''b'', Num (Integral 1)), (KStr ''c'', x)])])
         (List rp [Str ''a'', Str ''b'']) (Num (Integral 1))
     = Inr (Dict r0 [(KStr ''a'', Dict r1 [(KStr ''b'', Num (Integral 1)), (KStr ''c'', x)])], n)
   \<and> (\<not> nullish x \<longrightarrow>
        putIn n (Dict r0 [(KStr ''a'', Dict r1 [(KStr ''b'', Num (Integral 1)), (KStr ''c'', x)])])
              (List rp [Str ''a'', Str ''b'']) (Num (Integral 9))
          = Inr (Dict (Suc n)
                   [(KStr ''a'', Dict n [(KStr ''c'', x), (KStr ''b'', Num (Integral 9))])],
                 Suc (Suc n)))"
  by (simp add: putIn_def validate_def isPath_def everyBy_def isPrimitive_def getIn_def get_def
                nullish_def atKey_def assocIn_def atIndex_def assoc_def alwaysDict_def
                assocAtKey_def toKey_def has_def othersLoop_def is_val_eq putAny_same Let_def
                assocInAt.simps putAny_Num)

theorem putIn_path_sharing_witness:
  "putIn 3 (Dict 0 [(KStr ''a'',
                     Dict 1 [(KStr ''b'', Num (Integral 1)), (KStr ''c'', Num (Integral 2))])])
         (List 2 [Str ''a'', Str ''b'']) (Num (Integral 1))
     = Inr (Dict 0 [(KStr ''a'',
                     Dict 1 [(KStr ''b'', Num (Integral 1)), (KStr ''c'', Num (Integral 2))])], 3)
   \<and> \<not> nullish (Num (Integral 2))
   \<and> putIn 3 (Dict 0 [(KStr ''a'',
                     Dict 1 [(KStr ''b'', Num (Integral 1)), (KStr ''c'', Num (Integral 2))])])
           (List 2 [Str ''a'', Str ''b'']) (Num (Integral 9))
       = Inr (Dict 4 [(KStr ''a'',
                       Dict 3 [(KStr ''c'', Num (Integral 2)), (KStr ''b'', Num (Integral 9))])], 5)"
  using putIn_path_sharing [of 3 0 1 "Num (Integral 2)" 2]
  by (simp add: nullish_def eval_nat_numeral)

section \<open>Nil omission\<close>

lemma below_mono: "below c v \<Longrightarrow> c \<le> c' \<Longrightarrow> below c' v"
  by (induction c v rule: below.induct) (auto simp: list_all_iff)

lemma below_clean: "below c v \<Longrightarrow> c \<le> c0 \<Longrightarrow> clean c0 v"
  by (induction c v rule: below.induct) (auto simp: list_all_iff)

lemma intact_mono: "intact c0 c v \<Longrightarrow> c \<le> c' \<Longrightarrow> intact c0 c' v"
  by (auto simp: intact_def intro: below_mono)

lemma intact_start: "below c v \<Longrightarrow> intact c c v"
  by (simp add: intact_def below_clean)

lemma intact_Undefined [simp]: "intact c0 c Undefined"
  by (simp add: intact_def)

lemma intact_elems: "intact c0 c v \<Longrightarrow> x \<in> set (elems v) \<Longrightarrow> intact c0 c x"
  by (cases v) (auto simp: intact_def list_all_iff)

lemma intact_entries: "intact c0 c v \<Longrightarrow> e \<in> set (entries v) \<Longrightarrow> intact c0 c (snd e)"
  by (cases v) (auto simp: intact_def list_all_iff)

lemma atKey_cases: "atKey es k = Undefined \<or> (k, atKey es k) \<in> set es"
  by (auto simp: atKey_def split: option.splits dest: map_of_SomeD)

lemma intact_atKey: "intact c0 c v \<Longrightarrow> intact c0 c (atKey (entries v) k)"
  using atKey_cases [of "entries v" k] intact_entries [of c0 c v "(k, atKey (entries v) k)"]
  by auto

lemma intact_atIndex: "intact c0 c v \<Longrightarrow> intact c0 c (atIndex (elems v) i)"
  by (auto simp: atIndex_def intro: intact_elems)

lemma intact_List: "r < c \<Longrightarrow> \<forall>x \<in> set xs. intact c0 c x \<Longrightarrow> intact c0 c (List r xs)"
  by (simp add: intact_def list_all_iff)

lemma intact_Dict:
  "r < c \<Longrightarrow> \<forall>e \<in> set es. intact c0 c (snd e) \<and> \<not> nullish (snd e) \<Longrightarrow> intact c0 c (Dict r es)"
  by (simp add: intact_def list_all_iff)

lemma intact_primitive: "isPrimitive v \<Longrightarrow> intact c0 c v"
  by (cases v) (simp_all add: intact_def isPrimitive_def)

lemma indexNamed_less: "indexNamed s n = Some j \<Longrightarrow> j < n"
  by (induction n) (auto split: if_splits)

lemma intact_ownProperty: "intact c0 c v \<Longrightarrow> intact c0 c (ownProperty v k)"
proof (cases v)
  case (Dict r es)
  assume "intact c0 c v"
  from intact_atKey [OF this, of k] Dict show ?thesis by simp
next
  case (List r xs)
  assume i: "intact c0 c v"
  show ?thesis
  proof (cases k)
    case (KStr s)
    have "intact c0 c (xs ! j)" if "j < length xs" for j
      using intact_elems [OF i, of "xs ! j"] that List by simp
    then show ?thesis
      using List KStr by (auto simp: intact_def split: option.splits dest: indexNamed_less)
  next
    case (KSym n)
    with List show ?thesis by simp
  qed
next
  case (Str t)
  then show ?thesis by (cases k) (auto simp: intact_def split: option.splits)
qed simp_all

lemma intact_get: "intact c0 c v \<Longrightarrow> intact c0 c (get v k)"
  by (auto simp: get_def intact_ownProperty split: option.splits)

lemma intact_getLoop: "intact c0 c v \<Longrightarrow> intact c0 c (getLoop v ks)"
  by (induction ks arbitrary: v) (simp_all add: intact_get)

lemma set_setIndex: "set (setIndex out i v) \<subseteq> insert v (insert Undefined (set out))"
  by (auto simp: setIndex_def dest: set_update_subset_insert [THEN subsetD])

lemma set_setKey: "set (setKey out k v) \<subseteq> insert (k, v) (set out)"
  by (induction out) (auto split: if_splits)

lemma set_foldl_setKey:
  "set (foldl (\<lambda>out k. if P k then setKey out k (g k) else out) acc ks)
     \<subseteq> set acc \<union> {(k, g k) | k. P k}"
proof (induction ks arbitrary: acc)
  case Nil
  show ?case by simp
next
  case (Cons k ks)
  have "set (if P k then setKey acc k (g k) else acc) \<subseteq> set acc \<union> {(k, g k) | k. P k}"
    using set_setKey [of acc k "g k"] by auto
  with Cons.IH [of "if P k then setKey acc k (g k) else acc"] show ?case by auto
qed

lemma listLoop_intact:
  assumes "\<forall>y \<in> set ys. preserves c0 f y" "c0 \<le> c"
    and "\<forall>x \<in> set prev. intact c0 c x" "\<forall>y \<in> set ys. intact c0 c y"
    and "\<forall>x \<in> set out. intact c0 c x"
    and "listLoop f prev i ys (out, c) = (out', c')"
  shows "c \<le> c' \<and> (\<forall>x \<in> set out'. intact c0 c' x)"
  using assms
proof (induction ys arbitrary: i out c)
  case Nil
  then show ?case by simp
next
  case (Cons y ys)
  obtain v c1 where f: "f c (atIndex prev i) y = (v, c1)"
    by (cases "f c (atIndex prev i) y")
  have "intact c0 c (atIndex prev i)"
    using Cons.prems(3) by (simp add: atIndex_def)
  moreover have "intact c0 c y" "preserves c0 f y" using Cons.prems by simp_all
  ultimately have s: "c \<le> c1" "intact c0 c1 v"
    using f Cons.prems(2) unfolding preserves_def by blast+
  have out1: "\<forall>x \<in> set (setIndex out i v). intact c0 c1 x"
  proof
    fix x assume "x \<in> set (setIndex out i v)"
    then have "x = v \<or> x = Undefined \<or> x \<in> set out"
      using set_setIndex [of out i v] by auto
    then show "intact c0 c1 x"
      using Cons.prems(5) s intact_mono [OF _ s(1), of c0 x] by auto
  qed
  have "c1 \<le> c' \<and> (\<forall>x \<in> set out'. intact c0 c' x)"
  proof (rule Cons.IH [of c1 "setIndex out i v" "Suc i"])
    show "\<forall>y \<in> set ys. preserves c0 f y" using Cons.prems(1) by simp
    show "c0 \<le> c1" using Cons.prems(2) s by simp
    show "\<forall>x \<in> set prev. intact c0 c1 x" using Cons.prems(3) s by (auto intro: intact_mono)
    show "\<forall>y \<in> set ys. intact c0 c1 y" using Cons.prems(4) s by (auto intro: intact_mono)
    show "\<forall>x \<in> set (setIndex out i v). intact c0 c1 x" by (rule out1)
    show "listLoop f prev (Suc i) ys (setIndex out i v, c1) = (out', c')"
      using Cons.prems(6) f by simp
  qed
  with s show ?case by simp
qed

lemma dictLoop_intact:
  assumes "\<forall>k \<in> set ks. preserves c0 f (atKey (entries n) k)" "c0 \<le> c"
    and "intact c0 c p" "intact c0 c n"
    and "\<forall>e \<in> set out. intact c0 c (snd e) \<and> \<not> nullish (snd e)"
    and "dictLoop f (entries p) (entries n) ks (out, c) = (out', c')"
  shows "c \<le> c' \<and> (\<forall>e \<in> set out'. intact c0 c' (snd e) \<and> \<not> nullish (snd e))"
  using assms
proof (induction ks arbitrary: out c)
  case Nil
  then show ?case by simp
next
  case (Cons k ks)
  obtain v c1 where f: "f c (atKey (entries p) k) (atKey (entries n) k) = (v, c1)"
    by (cases "f c (atKey (entries p) k) (atKey (entries n) k)")
  have "intact c0 c (atKey (entries p) k)" "intact c0 c (atKey (entries n) k)"
    using Cons.prems(3,4) by (simp_all add: intact_atKey)
  moreover have "preserves c0 f (atKey (entries n) k)" using Cons.prems(1) by simp
  ultimately have s: "c \<le> c1" "intact c0 c1 v"
    using f Cons.prems(2) unfolding preserves_def by blast+
  define out1 where "out1 = (if \<not> nullish v then setKey out k v else out)"
  have out1: "\<forall>e \<in> set out1. intact c0 c1 (snd e) \<and> \<not> nullish (snd e)"
  proof
    fix e assume e: "e \<in> set out1"
    then have "e \<in> set out \<or> (e = (k, v) \<and> \<not> nullish v)"
      using set_setKey [of out k v] by (auto simp: out1_def split: if_splits)
    then show "intact c0 c1 (snd e) \<and> \<not> nullish (snd e)"
      using Cons.prems(5) s intact_mono [OF _ s(1), of c0 "snd e"] by auto
  qed
  have "c1 \<le> c' \<and> (\<forall>e \<in> set out'. intact c0 c' (snd e) \<and> \<not> nullish (snd e))"
  proof (rule Cons.IH [of c1 out1])
    show "\<forall>k \<in> set ks. preserves c0 f (atKey (entries n) k)" using Cons.prems(1) by simp
    show "c0 \<le> c1" using Cons.prems(2) s by simp
    show "intact c0 c1 p" "intact c0 c1 n" using Cons.prems(3,4) s by (auto intro: intact_mono)
    show "\<forall>e \<in> set out1. intact c0 c1 (snd e) \<and> \<not> nullish (snd e)" by (rule out1)
    show "dictLoop f (entries p) (entries n) ks (out1, c1) = (out', c')"
      using Cons.prems(6) f by (simp add: out1_def)
  qed
  with s show ?case by simp
qed

lemma replaceListBy_intact:
  assumes "\<forall>y \<in> set (elems next). preserves c0 f y" "c0 \<le> c"
    and "intact c0 c prev" "intact c0 c next"
    and "replaceListBy c prev next f = (res, c')"
  shows "c \<le> c' \<and> intact c0 c' res"
proof -
  obtain out where loop: "listLoop f (elems prev) 0 (elems next)
          (replicate (length (elems next)) Undefined, Suc c) = (out, c')"
    and r: "res = (if equalBy prev (List c out) is_val then prev else List c out)"
    using assms(5) by (auto simp: replaceListBy_def split: prod.splits)
  have "Suc c \<le> c' \<and> (\<forall>x \<in> set out. intact c0 c' x)"
  proof (rule listLoop_intact [OF assms(1) _ _ _ _ loop])
    show "c0 \<le> Suc c" using assms(2) by simp
    show "\<forall>x \<in> set (elems prev). intact c0 (Suc c) x"
      using assms(3) by (auto intro: intact_mono [OF intact_elems])
    show "\<forall>y \<in> set (elems next). intact c0 (Suc c) y"
      using assms(4) by (auto intro: intact_mono [OF intact_elems])
    show "\<forall>x \<in> set (replicate (length (elems next)) Undefined). intact c0 (Suc c) x"
      by simp
  qed
  then have "c \<le> c'" "intact c0 c' (List c out)"
    by (simp_all add: intact_List)
  moreover have "intact c0 c' prev" using assms(3) \<open>c \<le> c'\<close> by (rule intact_mono)
  ultimately show ?thesis by (simp add: r)
qed

lemma dict_result_intact:
  assumes "\<forall>k \<in> set (getKeys (entries next)). preserves c0 f (atKey (entries next) k)"
    and "c0 \<le> c" "intact c0 c prev" "intact c0 c next"
    and "\<forall>e \<in> set out0. intact c0 c (snd e) \<and> \<not> nullish (snd e)"
    and "dictLoop f (entries prev) (entries next) (getKeys (entries next)) (out0, Suc c)
           = (out, c')"
  shows "c \<le> c' \<and> intact c0 c' (if equalBy prev (Dict c out) is_val then prev else Dict c out)"
proof -
  have "Suc c \<le> c' \<and> (\<forall>e \<in> set out. intact c0 c' (snd e) \<and> \<not> nullish (snd e))"
  proof (rule dictLoop_intact [OF assms(1) _ _ _ _ assms(6)])
    show "c0 \<le> Suc c" using assms(2) by simp
    show "intact c0 (Suc c) prev" "intact c0 (Suc c) next"
      using assms(3,4) by (auto intro: intact_mono)
    show "\<forall>e \<in> set out0. intact c0 (Suc c) (snd e) \<and> \<not> nullish (snd e)"
      using assms(5) by (auto intro: intact_mono)
  qed
  then have "c \<le> c'" "intact c0 c' (Dict c out)"
    by (simp_all add: intact_Dict)
  moreover have "intact c0 c' prev" using assms(3) \<open>c \<le> c'\<close> by (rule intact_mono)
  ultimately show ?thesis by simp
qed

lemma replaceDictBy_intact:
  assumes "\<forall>k \<in> set (getKeys (entries next)). preserves c0 f (atKey (entries next) k)"
    and "c0 \<le> c" "intact c0 c prev" "intact c0 c next"
    and "replaceDictBy c prev next f = (res, c')"
  shows "c \<le> c' \<and> intact c0 c' res"
proof -
  obtain out where loop: "dictLoop f (entries prev) (entries next) (getKeys (entries next))
          ([], Suc c) = (out, c')"
    and r: "res = (if equalBy prev (Dict c out) is_val then prev else Dict c out)"
    using assms(5) by (auto simp: replaceDictBy_def split: prod.splits)
  show ?thesis
    unfolding r by (rule dict_result_intact [OF assms(1-4) _ loop]) simp
qed

lemma keepLoop_intact:
  assumes "intact c0 c prev"
  shows "\<forall>e \<in> set (keepLoop (entries prev) next). intact c0 c (snd e) \<and> \<not> nullish (snd e)"
proof
  fix e assume "e \<in> set (keepLoop (entries prev) next)"
  then obtain k where "e = (k, atKey (entries prev) k)" "\<not> nullish (atKey (entries prev) k)"
    unfolding keepLoop_def
    using set_foldl_setKey [of "\<lambda>k. \<not> nullish (atKey (entries prev) k) \<and> \<not> has next k"
            "atKey (entries prev)" "[]" "getKeys (entries prev)"]
    by auto
  with intact_atKey [OF assms, of k] show "intact c0 c (snd e) \<and> \<not> nullish (snd e)" by simp
qed

lemma othersLoop_intact:
  assumes "intact c0 c dict"
  shows "\<forall>e \<in> set (othersLoop (entries dict) key). intact c0 c (snd e) \<and> \<not> nullish (snd e)"
proof
  fix e assume "e \<in> set (othersLoop (entries dict) key)"
  then obtain k where "e = (k, atKey (entries dict) k)" "\<not> nullish (atKey (entries dict) k)"
    unfolding othersLoop_def
    using set_foldl_setKey [of "\<lambda>k. k \<noteq> key \<and> \<not> nullish (atKey (entries dict) k)"
            "atKey (entries dict)" "[]" "getKeys (entries dict)"]
    by auto
  with intact_atKey [OF assms, of k] show "intact c0 c (snd e) \<and> \<not> nullish (snd e)" by simp
qed

lemma patchDictBy_intact:
  assumes "\<forall>k \<in> set (getKeys (entries next)). preserves c0 f (atKey (entries next) k)"
    and "c0 \<le> c" "intact c0 c prev" "intact c0 c next"
    and "patchDictBy c prev next f = (res, c')"
  shows "c \<le> c' \<and> intact c0 c' res"
proof -
  obtain out where loop: "dictLoop f (entries prev) (entries next) (getKeys (entries next))
          (keepLoop (entries prev) (entries next), Suc c) = (out, c')"
    and r: "res = (if equalBy prev (Dict c out) is_val then prev else Dict c out)"
    using assms(5) by (auto simp: patchDictBy_def split: prod.splits)
  show ?thesis
    unfolding r
    by (rule dict_result_intact [OF assms(1-4) keepLoop_intact [OF assms(3)] loop])
qed

lemma putAny_preserves: "preserves c0 putAny next"
proof (induction "next" rule: measure_induct_rule [of size])
  case (less nxt)
  show ?case
    unfolding preserves_def
  proof (intro allI impI)
    fix c prev v c1
    assume c: "c0 \<le> c" and p: "intact c0 c prev" and n: "intact c0 c nxt"
      and r: "putAny c prev nxt = (v, c1)"
    consider (same) "prev = nxt"
      | (lists) "prev \<noteq> nxt" "isArray prev" "isArray nxt"
      | (dicts) "prev \<noteq> nxt" "isDict prev" "isDict nxt"
      | (other) "prev \<noteq> nxt" "\<not> (isArray prev \<and> isArray nxt)" "\<not> (isDict prev \<and> isDict nxt)"
      by blast
    then show "c \<le> c1 \<and> intact c0 c1 v"
    proof cases
      case same
      with r p show ?thesis by (simp add: putAny_same)
    next
      case lists
      then have "replaceListBy c prev nxt putAny = (v, c1)"
        using r by (subst (asm) putAny.simps) (simp add: is_val_eq)
      moreover have "\<forall>y \<in> set (elems nxt). preserves c0 putAny y"
        using less.IH size_elems by blast
      ultimately show ?thesis
        using c p n by (intro replaceListBy_intact [of nxt c0 putAny c prev v c1])
    next
      case dicts
      then have "\<not> isArray prev" by (cases prev) simp_all
      with dicts have "replaceDictBy c prev nxt putAny = (v, c1)"
        using r by (subst (asm) putAny.simps) (simp add: is_val_eq)
      moreover have "\<forall>k \<in> set (getKeys (entries nxt)).
                       preserves c0 putAny (atKey (entries nxt) k)"
        using less.IH size_entries by blast
      ultimately show ?thesis
        using c p n by (intro replaceDictBy_intact [of nxt c0 putAny c prev v c1])
    next
      case other
      with r n show ?thesis by (simp add: putAny_other)
    qed
  qed
qed

lemma putAny_intact:
  "c0 \<le> c \<Longrightarrow> intact c0 c prev \<Longrightarrow> intact c0 c next \<Longrightarrow> putAny c prev next = (v, c1) \<Longrightarrow>
   c \<le> c1 \<and> intact c0 c1 v"
  using putAny_preserves [of c0 "next"] unfolding preserves_def by blast

lemma toDict_intact:
  "intact c0 c v \<Longrightarrow> c0 \<le> c \<Longrightarrow>
   c \<le> snd (toDict c v) \<and> intact c0 (snd (toDict c v)) (fst (toDict c v))"
  by (auto simp: toDict_def intact_Dict intro: intact_mono)

lemma mergeTwo_step:
  assumes keys: "\<forall>k \<in> set (getKeys (entries next)).
                   preserves c0 mergeOrPut (atKey (entries next) k)"
    and c: "c0 \<le> c" and p: "intact c0 c prev" and n: "intact c0 c next"
    and d: "isDict next"
    and r: "mergeTwo c prev next = (v, c1)"
  shows "c \<le> c1 \<and> intact c0 c1 v"
proof (cases "prev = next")
  case True
  with r p show ?thesis by (simp add: mergeTwo.simps is_val_eq)
next
  case False
  obtain pd c2 where t: "toDict c prev = (pd, c2)" by (cases "toDict c prev")
  from toDict_intact [OF p c] t have c2: "c \<le> c2" and pd: "intact c0 c2 pd" by simp_all
  from d have tn: "toDict c2 next = (next, c2)" by (simp add: toDict_def)
  from False r t tn have "patchDictBy c2 pd next mergeOrPut = (v, c1)"
    by (simp add: mergeTwo.simps is_val_eq)
  moreover have "c0 \<le> c2" using c c2 by simp
  moreover have "intact c0 c2 next" using n c2 by (rule intact_mono)
  ultimately have "c2 \<le> c1 \<and> intact c0 c1 v"
    using keys pd by (intro patchDictBy_intact [of "next" c0 mergeOrPut c2 pd v c1])
  with c2 show ?thesis by simp
qed

lemma mergeOrPut_preserves: "preserves c0 mergeOrPut next"
proof (induction "next" rule: measure_induct_rule [of size])
  case (less nxt)
  show ?case
    unfolding preserves_def
  proof (intro allI impI)
    fix c prev v c1
    assume c: "c0 \<le> c" and p: "intact c0 c prev" and n: "intact c0 c nxt"
      and r: "mergeOrPut c prev nxt = (v, c1)"
    show "c \<le> c1 \<and> intact c0 c1 v"
    proof (cases "isDict nxt")
      case True
      with r have m: "mergeTwo c prev nxt = (v, c1)" by (simp add: mergeOrPut.simps)
      have "\<forall>k \<in> set (getKeys (entries nxt)). preserves c0 mergeOrPut (atKey (entries nxt) k)"
        using less.IH size_entries by blast
      then show ?thesis using c p n True m by (rule mergeTwo_step)
    next
      case False
      with r have "putAny c prev nxt = (v, c1)" by (simp add: mergeOrPut.simps)
      with c p n show ?thesis by (rule putAny_intact)
    qed
  qed
qed

lemma mergeTwo_intact:
  assumes "c0 \<le> c" "intact c0 c prev" "intact c0 c next" "isDict next"
    and "mergeTwo c prev next = (v, c1)"
  shows "c \<le> c1 \<and> intact c0 c1 v"
  using mergeOrPut_preserves assms by (intro mergeTwo_step [of "next" c0 c prev v c1]) simp_all

lemma alwaysDict_intact:
  assumes "c0 \<le> c" "intact c0 c v" "alwaysDict c v = Inr (d, c1)"
  shows "c \<le> c1 \<and> intact c0 c1 d \<and> isDict d"
  using assms
  by (auto simp: alwaysDict_def validate_def intact_Dict split: if_splits)

lemma assocAtKey_intact:
  assumes "c0 \<le> c" "intact c0 c dict" "intact c0 c v" "assocAtKey c dict key v = (res, c1)"
  shows "c \<le> c1 \<and> intact c0 c1 res"
proof (cases "res = dict")
  case True
  from assms(4) have "c \<le> c1" by (auto simp: assocAtKey_def Let_def split: if_splits)
  with True assms(2) show ?thesis by (auto intro: intact_mono)
next
  case False
  define out where "out = othersLoop (entries dict) (toKey key)"
  from False assms(4)
  have r: "res = Dict c (if \<not> nullish v then setKey out (toKey key) v else out)"
    and c1: "c1 = Suc c"
    by (auto simp: assocAtKey_def Let_def out_def split: if_splits)
  have o: "\<forall>e \<in> set out. intact c0 c (snd e) \<and> \<not> nullish (snd e)"
    unfolding out_def by (rule othersLoop_intact [OF assms(2)])
  have "\<forall>e \<in> set (if \<not> nullish v then setKey out (toKey key) v else out).
          intact c0 (Suc c) (snd e) \<and> \<not> nullish (snd e)"
  proof
    fix e assume "e \<in> set (if \<not> nullish v then setKey out (toKey key) v else out)"
    then have "e \<in> set out \<or> (e = (toKey key, v) \<and> \<not> nullish v)"
      using set_setKey [of out "toKey key" v] by (auto split: if_splits)
    then show "intact c0 (Suc c) (snd e) \<and> \<not> nullish (snd e)"
      using o assms(3) intact_mono [of c0 c "snd e" "Suc c"] by auto
  qed
  then show ?thesis by (simp add: r c1 intact_Dict)
qed

lemma assocAtIndex_intact:
  assumes "c0 \<le> c" "intact c0 c list" "intact c0 c v"
    and "assocAtIndex c list index v = Inr (res, c1)"
  shows "c \<le> c1 \<and> intact c0 c1 res"
proof (cases "res = list")
  case True
  from assms(4) have "c \<le> c1"
    by (auto simp: assocAtIndex_def split: sum.splits if_splits)
  with True assms(2) show ?thesis by (auto intro: intact_mono)
next
  case False
  with assms(4) have r: "res = List c (setIndex (elems list) (indexOf index) v)"
    and c1: "c1 = Suc c"
    by (auto simp: assocAtIndex_def split: sum.splits if_splits)
  have "\<forall>x \<in> set (setIndex (elems list) (indexOf index) v). intact c0 (Suc c) x"
  proof
    fix x assume "x \<in> set (setIndex (elems list) (indexOf index) v)"
    then have "x = v \<or> x = Undefined \<or> x \<in> set (elems list)"
      using set_setIndex [of "elems list" "indexOf index" v] by auto
    then show "intact c0 (Suc c) x"
      using assms(3) intact_elems [OF assms(2), of x] intact_mono [of c0 c x "Suc c"] by auto
  qed
  then show ?thesis by (simp add: r c1 intact_List)
qed

lemma assoc_intact:
  assumes "c0 \<le> c" "intact c0 c prev" "intact c0 c v" "assoc c prev key v = Inr (res, c1)"
  shows "c \<le> c1 \<and> intact c0 c1 res"
proof (cases "isArray prev")
  case True
  with assms(4) have "assocAtIndex c prev key v = Inr (res, c1)" by (simp add: assoc_def)
  with assms(1-3) show ?thesis by (rule assocAtIndex_intact)
next
  case False
  with assms(4) obtain d c2 where a: "alwaysDict c prev = Inr (d, c2)"
    and k: "assocAtKey c2 d key v = (res, c1)"
    by (auto simp: assoc_def split: sum.splits)
  from alwaysDict_intact [OF assms(1,2) a] have c2: "c \<le> c2" and d: "intact c0 c2 d"
    by simp_all
  have "c2 \<le> c1 \<and> intact c0 c1 res"
  proof (rule assocAtKey_intact [OF _ d _ k])
    show "c0 \<le> c2" using assms(1) c2 by simp
    show "intact c0 c2 v" using assms(3) c2 by (rule intact_mono)
  qed
  with c2 show ?thesis by simp
qed

lemma assocInAt_intact:
  "c0 \<le> c \<Longrightarrow> intact c0 c prev \<Longrightarrow> intact c0 c v \<Longrightarrow>
   assocInAt c prev path v index = Inr (res, c1) \<Longrightarrow> c \<le> c1 \<and> intact c0 c1 res"
proof (induction c prev path v index arbitrary: res c1 rule: assocInAt.induct)
  case (1 c prev path v index)
  show ?case
  proof (cases "index < length path - 1")
    case True
    with "1.prems"(4) obtain inner c2
      where i: "assocInAt c (get prev (atIndex path index)) path v (index + 1) = Inr (inner, c2)"
        and a: "assoc c2 prev (atIndex path index) inner = Inr (res, c1)"
      by (subst (asm) assocInAt.simps) (auto simp: Let_def split: sum.splits)
    have "c \<le> c2 \<and> intact c0 c2 inner"
      using "1.IH" [OF refl True "1.prems"(1) intact_get [OF "1.prems"(2)] "1.prems"(3) i] .
    then have c2: "c \<le> c2" and inner: "intact c0 c2 inner" by simp_all
    have "c2 \<le> c1 \<and> intact c0 c1 res"
    proof (rule assoc_intact [OF _ _ inner a])
      show "c0 \<le> c2" using "1.prems"(1) c2 by simp
      show "intact c0 c2 prev" using "1.prems"(2) c2 by (rule intact_mono)
    qed
    with c2 show ?thesis by simp
  next
    case False
    with "1.prems"(4) have "assoc c prev (atIndex path index) v = Inr (res, c1)"
      by (subst (asm) assocInAt.simps) (simp add: Let_def)
    with "1.prems"(1-3) show ?thesis by (rule assoc_intact)
  qed
qed

lemma put_intact:
  assumes "intact c c prev" "intact c c v" "put c prev key v = Inr (res, c1)"
  shows "intact c c1 res"
proof -
  obtain w c2 where pa: "putAny c (get prev key) v = (w, c2)"
    by (cases "putAny c (get prev key) v")
  with assms(3) have a: "assoc c2 prev key w = Inr (res, c1)"
    by (auto simp: put_def split: sum.splits)
  from putAny_intact [OF le_refl intact_get [OF assms(1)] assms(2) pa]
  have c2: "c \<le> c2" and w: "intact c c2 w" by simp_all
  from assoc_intact [OF c2 intact_mono [OF assms(1) c2] w a] show ?thesis by simp
qed

lemma putIn_intact:
  assumes "intact c c prev" "intact c c v" "putIn c prev path v = Inr (res, c1)"
  shows "intact c c1 res"
proof -
  from assms(3) obtain cur where g: "getIn prev path = Inr cur"
    by (auto simp: putIn_def split: sum.splits)
  then have cur: "cur = getLoop prev (elems path)"
    by (auto simp: getIn_def split: sum.splits)
  obtain w c2 where pa: "putAny c cur v = (w, c2)" by (cases "putAny c cur v")
  with assms(3) g have a: "assocIn c2 prev (elems path) w = Inr (res, c1)"
    by (auto simp: putIn_def split: sum.splits)
  have "intact c c cur" unfolding cur by (rule intact_getLoop [OF assms(1)])
  from putAny_intact [OF le_refl this assms(2) pa]
  have c2: "c \<le> c2" and w: "intact c c2 w" by simp_all
  show ?thesis
  proof (cases "length (elems path) = 0")
    case True
    with a w show ?thesis by (simp add: assocIn_def)
  next
    case False
    with a have "assocInAt c2 prev (elems path) w 0 = Inr (res, c1)"
      by (simp add: assocIn_def)
    from assocInAt_intact [OF c2 intact_mono [OF assms(1) c2] w this] show ?thesis by simp
  qed
qed

lemma two_dicts:
  assumes "intact c c prev" "intact c c next"
    and "alwaysDict c prev = Inr (p, c1)" "alwaysDict c1 next = Inr (n, c2)"
  shows "c \<le> c2 \<and> intact c c2 p \<and> intact c c2 n \<and> isDict n"
proof -
  from alwaysDict_intact [OF le_refl assms(1,3)] have c1: "c \<le> c1" and p: "intact c c1 p"
    by simp_all
  from alwaysDict_intact [OF c1 intact_mono [OF assms(2) c1] assms(4)]
  have c2: "c1 \<le> c2" and n: "intact c c2 n" "isDict n" by simp_all
  from c1 c2 p n show ?thesis by (auto intro: intact_mono)
qed

lemma patch_intact:
  assumes "intact c c prev" "intact c c next" "patch c prev next = Inr (res, c3)"
  shows "intact c c3 res"
proof -
  from assms(3) obtain p c1 n c2 where a: "alwaysDict c prev = Inr (p, c1)"
    and b: "alwaysDict c1 next = Inr (n, c2)"
    and r: "(if is_val p n then (p, c2) else patchDictBy c2 p n putAny) = (res, c3)"
    by (auto simp: patch_def patchTwoDicts_def split: sum.splits if_splits)
  from two_dicts [OF assms(1,2) a b]
  have c2: "c \<le> c2" and p: "intact c c2 p" and n: "intact c c2 n" by simp_all
  show ?thesis
  proof (cases "is_val p n")
    case True
    with r p show ?thesis by simp
  next
    case False
    with r have "patchDictBy c2 p n putAny = (res, c3)" by simp
    from patchDictBy_intact [OF _ c2 p n this] putAny_preserves show ?thesis by simp
  qed
qed

lemma merge_intact:
  assumes "intact c c prev" "intact c c next" "merge c prev next = Inr (res, c3)"
  shows "intact c c3 res"
proof -
  from assms(3) obtain p c1 n c2 where a: "alwaysDict c prev = Inr (p, c1)"
    and b: "alwaysDict c1 next = Inr (n, c2)"
    and r: "mergeTwo c2 p n = (res, c3)"
    by (auto simp: merge_def mergeTwoDicts_def split: sum.splits)
  from two_dicts [OF assms(1,2) a b]
  have c2: "c \<le> c2" and p: "intact c c2 p" and n: "intact c c2 n" and d: "isDict n"
    by simp_all
  from mergeTwo_intact [OF c2 p n d r] show ?thesis by simp
qed

lemma put_undefined: "put c (Dict r [(KStr ''a'', Num (Integral 1))]) (Str ''a'') Undefined = Inr (Dict c [], Suc c)"
proof -
  have g: "get (Dict r [(KStr ''a'', Num (Integral 1))]) (Str ''a'') = Num (Integral 1)"
    by (simp add: get_def nullish_def atKey_def)
  have k: "toKey (Str ''a'') = KStr ''a''" by (simp add: toKey_def)
  have a: "assocAtKey c (Dict r [(KStr ''a'', Num (Integral 1))]) (Str ''a'') Undefined
             = (Dict c [], Suc c)"
    by (simp add: assocAtKey_def k nullish_def has_def othersLoop_def)
  show ?thesis
    by (simp add: put_def validate_def isPrimitive_def g putAny_Num assoc_def alwaysDict_Dict a)
qed


lemma put_clean:
  assumes "below c prev" "below c v" "put c prev key v = Inr (res, c')"
  shows "below c' res \<and> clean c res"
proof -
  have "intact c c' res"
    using intact_start [OF assms(1)] intact_start [OF assms(2)] assms(3) by (rule put_intact)
  then show ?thesis by (simp add: intact_def)
qed

lemma putIn_clean:
  assumes "below c prev" "below c v" "putIn c prev path v = Inr (res, c')"
  shows "below c' res \<and> clean c res"
proof -
  have "intact c c' res"
    using intact_start [OF assms(1)] intact_start [OF assms(2)] assms(3) by (rule putIn_intact)
  then show ?thesis by (simp add: intact_def)
qed

lemma patch_clean:
  assumes "below c prev" "below c v" "patch c prev v = Inr (res, c')"
  shows "below c' res \<and> clean c res"
proof -
  have "intact c c' res"
    using intact_start [OF assms(1)] intact_start [OF assms(2)] assms(3) by (rule patch_intact)
  then show ?thesis by (simp add: intact_def)
qed

lemma merge_clean:
  assumes "below c prev" "below c v" "merge c prev v = Inr (res, c')"
  shows "below c' res \<and> clean c res"
proof -
  have "intact c c' res"
    using intact_start [OF assms(1)] intact_start [OF assms(2)] assms(3) by (rule merge_intact)
  then show ?thesis by (simp add: intact_def)
qed

text \<open>
  Claim C9. Take a call of \<^verbatim>\<open>put\<close>, \<^verbatim>\<open>putIn\<close>, \<^verbatim>\<open>patch\<close> or \<^verbatim>\<open>merge\<close> that returns,
  made at the count \<open>c\<close> of allocated objects on arguments that hold only objects allocated
  before. Every dict of the result that the call allocated, that is, every dict with a
  reference from \<open>c\<close> on, at any depth, has no nullish value under any key; the dicts with an
  earlier reference are the ones received as input, and they are passed on as they are.
  In particular \<^verbatim>\<open>put({a: 1}, 'a', undefined)\<close> is a new dict with no key.
\<close>

theorem new_dicts_omit_nil:
  "(below c prev \<and> below c v \<and> put c prev key v = Inr (res, c') \<longrightarrow> below c' res \<and> clean c res)
   \<and> (below c prev \<and> below c v \<and> putIn c prev path v = Inr (res, c') \<longrightarrow>
        below c' res \<and> clean c res)
   \<and> (below c prev \<and> below c v \<and> patch c prev v = Inr (res, c') \<longrightarrow> below c' res \<and> clean c res)
   \<and> (below c prev \<and> below c v \<and> merge c prev v = Inr (res, c') \<longrightarrow> below c' res \<and> clean c res)
   \<and> put c (Dict r [(KStr ''a'', Num (Integral 1))]) (Str ''a'') Undefined = Inr (Dict c [], Suc c)"
  using put_clean [of c prev v key res c'] putIn_clean [of c prev v path res c']
        patch_clean [of c prev v res c'] merge_clean [of c prev v res c']
        put_undefined [of c r]
  by blast

lemma put_drops_null:
  "put 1 (Dict 0 [(KStr ''a'', Null), (KStr ''b'', Num (Integral 1))]) (Str ''c'')
       (Num (Integral 2))
     = Inr (Dict 1 [(KStr ''b'', Num (Integral 1)), (KStr ''c'', Num (Integral 2))], 2)"
  by code_simp

lemma putIn_drops_null:
  "putIn 3 (Dict 0 [(KStr ''a'', Dict 1 [(KStr ''b'', Null), (KStr ''c'', Num (Integral 2))])])
         (List 2 [Str ''a'', Str ''d'']) (Num (Integral 3))
     = Inr (Dict 4 [(KStr ''a'',
                     Dict 3 [(KStr ''c'', Num (Integral 2)), (KStr ''d'', Num (Integral 3))])], 5)"
  by code_simp

lemma patch_drops_null:
  "patch 2 (Dict 0 [(KStr ''a'', Null), (KStr ''b'', Num (Integral 1))])
           (Dict 1 [(KStr ''c'', Undefined), (KStr ''d'', Num (Integral 2))])
     = Inr (Dict 2 [(KStr ''b'', Num (Integral 1)), (KStr ''d'', Num (Integral 2))], 3)"
  by code_simp

lemma merge_drops_null:
  "merge 4 (Dict 0 [(KStr ''a'', Dict 1 [(KStr ''x'', Null)])])
           (Dict 2 [(KStr ''a'', Dict 3 [(KStr ''y'', Num (Integral 2))])])
     = Inr (Dict 4 [(KStr ''a'', Dict 5 [(KStr ''y'', Num (Integral 2))])], 6)"
  by code_simp

theorem new_dicts_omit_nil_witness:
  "below 1 (Dict 0 [(KStr ''a'', Null), (KStr ''b'', Num (Integral 1))])
   \<and> put 1 (Dict 0 [(KStr ''a'', Null), (KStr ''b'', Num (Integral 1))]) (Str ''c'')
          (Num (Integral 2))
       = Inr (Dict 1 [(KStr ''b'', Num (Integral 1)), (KStr ''c'', Num (Integral 2))], 2)
   \<and> clean 1 (Dict 1 [(KStr ''b'', Num (Integral 1)), (KStr ''c'', Num (Integral 2))])
   \<and> below 3 (Dict 0 [(KStr ''a'', Dict 1 [(KStr ''b'', Null), (KStr ''c'', Num (Integral 2))])])
   \<and> clean 3 (Dict 4 [(KStr ''a'',
                  Dict 3 [(KStr ''c'', Num (Integral 2)), (KStr ''d'', Num (Integral 3))])])
   \<and> below 2 (Dict 1 [(KStr ''c'', Undefined), (KStr ''d'', Num (Integral 2))])
   \<and> clean 2 (Dict 2 [(KStr ''b'', Num (Integral 1)), (KStr ''d'', Num (Integral 2))])
   \<and> below 4 (Dict 2 [(KStr ''a'', Dict 3 [(KStr ''y'', Num (Integral 2))])])
   \<and> clean 4 (Dict 4 [(KStr ''a'', Dict 5 [(KStr ''y'', Num (Integral 2))])])"
proof -
  have "below 1 (Dict 0 [(KStr ''a'', Null), (KStr ''b'', Num (Integral 1))])"
    and "below 1 (Num (Integral 2))"
    and "below 3 (Dict 0 [(KStr ''a'', Dict 1 [(KStr ''b'', Null), (KStr ''c'', Num (Integral 2))])])"
    and "below 3 (Num (Integral 3))"
    and "below 2 (Dict 0 [(KStr ''a'', Null), (KStr ''b'', Num (Integral 1))])"
    and "below 2 (Dict 1 [(KStr ''c'', Undefined), (KStr ''d'', Num (Integral 2))])"
    and "below 4 (Dict 0 [(KStr ''a'', Dict 1 [(KStr ''x'', Null)])])"
    and "below 4 (Dict 2 [(KStr ''a'', Dict 3 [(KStr ''y'', Num (Integral 2))])])"
    by simp_all
  then show ?thesis
    using
      new_dicts_omit_nil [of 1 "Dict 0 [(KStr ''a'', Null), (KStr ''b'', Num (Integral 1))]"
        "Num (Integral 2)" "Str ''c''"
        "Dict 1 [(KStr ''b'', Num (Integral 1)), (KStr ''c'', Num (Integral 2))]" 2]
      new_dicts_omit_nil [of 3
        "Dict 0 [(KStr ''a'', Dict 1 [(KStr ''b'', Null), (KStr ''c'', Num (Integral 2))])]"
        "Num (Integral 3)" _
        "Dict 4 [(KStr ''a'',
                  Dict 3 [(KStr ''c'', Num (Integral 2)), (KStr ''d'', Num (Integral 3))])]" 5
        "List 2 [Str ''a'', Str ''d'']"]
      new_dicts_omit_nil [of 2 "Dict 0 [(KStr ''a'', Null), (KStr ''b'', Num (Integral 1))]"
        "Dict 1 [(KStr ''c'', Undefined), (KStr ''d'', Num (Integral 2))]" _
        "Dict 2 [(KStr ''b'', Num (Integral 1)), (KStr ''d'', Num (Integral 2))]" 3]
      new_dicts_omit_nil [of 4 "Dict 0 [(KStr ''a'', Dict 1 [(KStr ''x'', Null)])]"
        "Dict 2 [(KStr ''a'', Dict 3 [(KStr ''y'', Num (Integral 2))])]" _
        "Dict 4 [(KStr ''a'', Dict 5 [(KStr ''y'', Num (Integral 2))])]" 6]
      put_drops_null putIn_drops_null patch_drops_null merge_drops_null
    by blast
qed

end
